theory Spec2Isabelle
  imports Complex_Main
begin

section \<open>Python values and exceptions\<close>

text \<open>
  The notebooks are Python. An exception that leaves a function is the left summand of the
  function's result; the constructor names are the Python exception classes that the modelled
  statements raise.
\<close>

datatype py_error = ValueError | KeyError | IndexError | RuntimeError

text \<open>
  \<^verbatim>\<open>range(start, stop, step)\<close> for a positive step, as the list of its values. The caller
  rejects a zero step, for which Python raises.
\<close>

function py_range :: "int \<Rightarrow> int \<Rightarrow> int \<Rightarrow> int list" where
  "py_range i stop step =
     (if 0 < step \<and> i < stop then i # py_range (i + step) stop step else [])"
  by pat_completeness auto
termination
  by (relation "measure (\<lambda>(i, stop, step). nat (stop - i))") auto

declare py_range.simps [simp del]

text \<open>The slice \<^verbatim>\<open>xs[i:j]\<close> for indices that are not negative.\<close>

definition slice :: "'a list \<Rightarrow> nat \<Rightarrow> nat \<Rightarrow> 'a list" where
  "slice xs i j = drop i (take j xs)"

section \<open>Windowing and majority labels\<close>

definition SAMPLING_RATE_ORIG :: nat where "SAMPLING_RATE_ORIG = 700"
definition SAMPLING_RATE_TARGET :: nat where "SAMPLING_RATE_TARGET = 4"
definition WINDOW_SIZE_SEC :: nat where "WINDOW_SIZE_SEC = 15"
definition STRIDE_SEC :: nat where "STRIDE_SEC = 5"

text \<open>
  \<^verbatim>\<open>np.bincount(ys)\<close>: position \<open>v\<close> of the result counts the occurrences of \<open>v\<close>, for
  \<open>v\<close> from 0 to the largest element; a negative element raises, and the empty array gives
  the empty array.
\<close>

definition bincount :: "int list \<Rightarrow> py_error + nat list" where
  "bincount ys =
     (if \<exists>v \<in> set ys. v < 0 then Inl ValueError
      else Inr (map (\<lambda>v. count_list ys (int v))
                  [0 ..< (if ys = [] then 0 else Suc (nat (Max (set ys))))]))"

text \<open>
  \<^verbatim>\<open>cs.argmax()\<close>: the scan keeps the position of the first largest element; the empty
  array raises.
\<close>

fun argmax_loop :: "nat list \<Rightarrow> nat \<Rightarrow> nat \<Rightarrow> nat \<Rightarrow> nat" where
  "argmax_loop [] i best v = best"
| "argmax_loop (c # cs) i best v =
     (if v < c then argmax_loop cs (Suc i) i c else argmax_loop cs (Suc i) best v)"

definition argmax :: "nat list \<Rightarrow> py_error + nat" where
  "argmax cs = (case cs of [] \<Rightarrow> Inl ValueError | c # cs' \<Rightarrow> Inr (argmax_loop cs' 1 0 c))"

text \<open>\<^verbatim>\<open>np.bincount(win_y).argmax()\<close>\<close>

definition majority_label :: "int list \<Rightarrow> py_error + int" where
  "majority_label win_y =
     (case bincount win_y of
        Inl e \<Rightarrow> Inl e
      | Inr cs \<Rightarrow> (case argmax cs of Inl e \<Rightarrow> Inl e | Inr m \<Rightarrow> Inr (int m)))"

text \<open>
  The body of the \<^verbatim>\<open>for\<close> loop of \<^verbatim>\<open>create_windows\<close>, over the remaining start
  indices, with the two result lists as accumulators.
\<close>

fun windows_loop ::
  "'a list \<Rightarrow> int list \<Rightarrow> nat \<Rightarrow> nat list \<Rightarrow> 'a list list \<times> int list
     \<Rightarrow> py_error + ('a list list \<times> int list)" where
  "windows_loop X y window_size [] (windows, labels) = Inr (windows, labels)"
| "windows_loop X y window_size (i # rest) (windows, labels) =
     (let win_x = slice X i (i + window_size);
          win_y = slice y i (i + window_size)
      in if 0 \<in> set win_y then windows_loop X y window_size rest (windows, labels)
         else (case majority_label win_y of
                 Inl e \<Rightarrow> Inl e
               | Inr majority \<Rightarrow>
                   windows_loop X y window_size rest
                     (windows @ [win_x], labels @ [majority])))"

text \<open>
  The start indices of the loop: \<^verbatim>\<open>range(0, len(X) - window_size, stride)\<close>. Window
  size and stride are natural numbers here: negative values are not modelled.
\<close>

definition window_starts :: "nat \<Rightarrow> nat \<Rightarrow> nat \<Rightarrow> nat list" where
  "window_starts n window_size stride =
     map nat (py_range 0 (int n - int window_size) (int stride))"

definition create_windows ::
  "'a list \<Rightarrow> int list \<Rightarrow> nat \<Rightarrow> nat \<Rightarrow> py_error + ('a list list \<times> int list)" where
  "create_windows X y window_size stride =
     (if stride = 0 then Inl ValueError
      else windows_loop X y window_size (window_starts (length X) window_size stride) ([], []))"

text \<open>The call with the default arguments of the source.\<close>

definition create_windows_default :: "'a list \<Rightarrow> int list \<Rightarrow> py_error + ('a list list \<times> int list)" where
  "create_windows_default X y =
     create_windows X y (WINDOW_SIZE_SEC * SAMPLING_RATE_TARGET) (STRIDE_SEC * SAMPLING_RATE_TARGET)"

text \<open>
  The start indices whose window the loop keeps: those whose label slice has no 0.
\<close>

definition kept_starts :: "int list \<Rightarrow> nat \<Rightarrow> nat \<Rightarrow> nat \<Rightarrow> nat list" where
  "kept_starts y n window_size stride =
     filter (\<lambda>i. 0 \<notin> set (slice y i (i + window_size))) (window_starts n window_size stride)"

text \<open>
  The candidate windows in the words of the specification: the start indices from 0 in
  steps of the stride, while \<open>start + W \<le> total_rows\<close>; and those of them whose label
  slice has no 0, which the specification keeps.
\<close>

definition claimed_window_starts :: "nat \<Rightarrow> nat \<Rightarrow> nat \<Rightarrow> nat list" where
  "claimed_window_starts n window_size stride =
     map nat (py_range 0 (int n - int window_size + 1) (int stride))"

definition claimed_kept_starts :: "int list \<Rightarrow> nat \<Rightarrow> nat \<Rightarrow> nat \<Rightarrow> nat list" where
  "claimed_kept_starts y n window_size stride =
     filter (\<lambda>i. 0 \<notin> set (slice y i (i + window_size))) (claimed_window_starts n window_size stride)"

text \<open>
  \<open>m\<close> is the mode of \<open>ys\<close>, and the smallest value among those that occur as often.
\<close>

definition smallest_mode :: "int list \<Rightarrow> int \<Rightarrow> bool" where
  "smallest_mode ys m \<longleftrightarrow>
     m \<in> set ys \<and>
     (\<forall>v \<in> set ys. count_list ys v \<le> count_list ys m \<and>
                    (count_list ys v = count_list ys m \<longrightarrow> m \<le> v))"

section \<open>Questionnaire scores\<close>

text \<open>
  A Python string is a list of characters. The characters of the model are the 256 code
  points of Latin-1 (\<^typ>\<open>char\<close>, read through \<^const>\<open>of_char\<close>): a text with other code
  points is outside the model. Over these code points, \<^verbatim>\<open>str.isspace\<close> holds of the
  twelve separators below, and \<^verbatim>\<open>str.isdigit\<close> of the ten decimal digits and of the
  superscripts two, three and one (178, 179, 185).
\<close>

definition py_isspace :: "char \<Rightarrow> bool" where
  "py_isspace c \<longleftrightarrow> (of_char c :: nat) \<in> {9, 10, 11, 12, 13, 28, 29, 30, 31, 32, 133, 160}"

definition ascii_digit :: "char \<Rightarrow> bool" where
  "ascii_digit c \<longleftrightarrow> 48 \<le> (of_char c :: nat) \<and> (of_char c :: nat) \<le> 57"

definition py_isdigit_char :: "char \<Rightarrow> bool" where
  "py_isdigit_char c \<longleftrightarrow> ascii_digit c \<or> (of_char c :: nat) \<in> {178, 179, 185}"

text \<open>\<^verbatim>\<open>s.strip()\<close>, \<^verbatim>\<open>s.isdigit()\<close> and \<^verbatim>\<open>s.startswith(p)\<close>\<close>

definition strip :: "string \<Rightarrow> string" where
  "strip s = rev (dropWhile py_isspace (rev (dropWhile py_isspace s)))"

definition isdigit :: "string \<Rightarrow> bool" where
  "isdigit s \<longleftrightarrow> s \<noteq> [] \<and> list_all py_isdigit_char s"

definition startswith :: "string \<Rightarrow> string \<Rightarrow> bool" where
  "startswith s p \<longleftrightarrow> take (length p) s = p"

text \<open>
  \<^verbatim>\<open>int(s)\<close> in base 10. The builtin strips the separators it knows (not the four
  separators 28 to 31, which \<^verbatim>\<open>strip\<close> removes), reads an optional sign and then
  decimal digits, between which single underscores may stand; anything else raises
  \<^verbatim>\<open>ValueError\<close>, and so do more than 4300 digits (the default limit of the
  interpreter of the notebook, Python 3.11).
\<close>

definition int_space :: "char \<Rightarrow> bool" where
  "int_space c \<longleftrightarrow> (of_char c :: nat) \<in> {9, 10, 11, 12, 13, 32, 133, 160}"

definition decimal_value :: "string \<Rightarrow> nat" where
  "decimal_value ds = foldl (\<lambda>a c. 10 * a + (of_char c - 48)) 0 ds"

fun digit_groups :: "string \<Rightarrow> bool" where
  "digit_groups [] = False"
| "digit_groups [c] = ascii_digit c"
| "digit_groups (c # d # r) =
     (ascii_digit c \<and> (if d = CHR ''_'' then digit_groups r else digit_groups (d # r)))"

definition int_max_str_digits :: nat where
  "int_max_str_digits = 4300"

definition py_int :: "string \<Rightarrow> py_error + int" where
  "py_int s =
     (let t = rev (dropWhile int_space (rev (dropWhile int_space s)));
          negative = (t \<noteq> [] \<and> hd t = CHR ''-'');
          body = (if t \<noteq> [] \<and> (hd t = CHR ''-'' \<or> hd t = CHR ''+'') then tl t else t);
          ds = filter (\<lambda>c. c \<noteq> CHR ''_'') body
      in if \<not> digit_groups body then Inl ValueError
         else if int_max_str_digits < length ds then Inl ValueError
         else Inr (if negative then - int (decimal_value ds) else int (decimal_value ds)))"

definition PANAS_ITEMS :: "string list" where
  "PANAS_ITEMS =
     [''Active'', ''Distressed'', ''Interested'', ''Inspired'', ''Annoyed'', ''Strong'', ''Guilty'',
      ''Scared'', ''Hostile'', ''Excited'', ''Proud'', ''Irritable'', ''Enthusiastic'', ''Ashamed'',
      ''Alert'', ''Nervous'', ''Determined'', ''Attentive'', ''Jittery'', ''Afraid'', ''Stressed'',
      ''Frustrated'', ''Happy'', ''Angry'', ''Irritated'', ''Sad'']"

definition TARGET_PANAS :: "string list" where
  "TARGET_PANAS = [''Stressed'', ''Angry'', ''Happy'', ''Sad'', ''Inspired'', ''Excited'', ''Nervous'']"

text \<open>
  A \<^verbatim>\<open>dict\<close> is the list of its items in insertion order, with distinct keys. Storing
  under a key that is present replaces the value where the key stands; \<^verbatim>\<open>dict(items)\<close>
  stores the items one after the other; \<^verbatim>\<open>d[key]\<close> raises for a key that is absent.
\<close>

type_synonym ('k, 'v) dict = "('k \<times> 'v) list"

fun dict_set :: "('k, 'v) dict \<Rightarrow> 'k \<Rightarrow> 'v \<Rightarrow> ('k, 'v) dict" where
  "dict_set [] k v = [(k, v)]"
| "dict_set ((k', v') # d) k v = (if k' = k then (k, v) # d else (k', v') # dict_set d k v)"

definition py_dict :: "('k \<times> 'v) list \<Rightarrow> ('k, 'v) dict" where
  "py_dict items = foldl (\<lambda>d (k, v). dict_set d k v) [] items"

definition getitem :: "('k, 'v) dict \<Rightarrow> 'k \<Rightarrow> py_error + 'v" where
  "getitem d k = (case map_of d k of None \<Rightarrow> Inl KeyError | Some v \<Rightarrow> Inr v)"

text \<open>
  The comprehension \<^verbatim>\<open>[int(val) for val in row[1:] if val.strip().isdigit()]\<close>: the
  first \<^verbatim>\<open>int\<close> that raises ends it.
\<close>

fun parse_scores :: "string list \<Rightarrow> py_error + int list" where
  "parse_scores [] = Inr []"
| "parse_scores (val # rest) =
     (if isdigit (strip val) then
        (case py_int val of
           Inl e \<Rightarrow> Inl e
         | Inr n \<Rightarrow> (case parse_scores rest of Inl e \<Rightarrow> Inl e | Inr ns \<Rightarrow> Inr (n # ns)))
      else parse_scores rest)"

definition PANAS_MARKER :: string where
  "PANAS_MARKER = ''# PANAS''"

text \<open>\<^verbatim>\<open>r and r[0].startswith('# PANAS')\<close>\<close>

definition marker_row :: "string list \<Rightarrow> bool" where
  "marker_row r \<longleftrightarrow> r \<noteq> [] \<and> startswith (hd r) PANAS_MARKER"

text \<open>
  The loop over the marker rows. The state is the list \<^verbatim>\<open>condition_scores\<close> and the
  messages printed so far; a printed message is recorded as the exception it reports.
\<close>

fun scores_loop ::
  "string list list \<Rightarrow> (string, int) dict list \<times> py_error list
     \<Rightarrow> (string, int) dict list \<times> py_error list" where
  "scores_loop [] (condition_scores, printed) = (condition_scores, printed)"
| "scores_loop (row # rows) (condition_scores, printed) =
     (case parse_scores (tl row) of
        Inl e \<Rightarrow> scores_loop rows (condition_scores, printed @ [e])
      | Inr scores \<Rightarrow>
          if length scores < length PANAS_ITEMS then scores_loop rows (condition_scores, printed)
          else scores_loop rows
                 (condition_scores @ [py_dict (zip PANAS_ITEMS scores)], printed))"

text \<open>
  \<^verbatim>\<open>extract_panas_scores\<close>, from the rows that \<^verbatim>\<open>csv.reader\<close> yields for the file
  (each row the list of its fields).
\<close>

definition extract_panas_scores ::
  "string list list \<Rightarrow> (string, int) dict list \<times> py_error list" where
  "extract_panas_scores reader = scores_loop (filter marker_row reader) ([], [])"

text \<open>
  The rows that contribute a dictionary, and the rows whose parsing raises: a marker row
  whose comprehension yields at least as many scores as there are adjectives, and a marker
  row whose comprehension raises.
\<close>

definition row_accepted :: "string list \<Rightarrow> bool" where
  "row_accepted r \<longleftrightarrow>
     marker_row r \<and>
     (case parse_scores (tl r) of Inl e \<Rightarrow> False | Inr scores \<Rightarrow> length PANAS_ITEMS \<le> length scores)"

definition row_failed :: "string list \<Rightarrow> bool" where
  "row_failed r \<longleftrightarrow> marker_row r \<and> isl (parse_scores (tl r))"

text \<open>
  The reading of the questionnaire in the words of the specification: a field counts as
  numeric when, stripped, it consists entirely of decimal digits; every other field is
  dropped; a marker row with at least 26 numeric fields pairs the first 26 with the
  adjectives.
\<close>

definition decimal_field :: "string \<Rightarrow> bool" where
  "decimal_field val \<longleftrightarrow> strip val \<noteq> [] \<and> list_all ascii_digit (strip val)"

definition claimed_scores :: "string list \<Rightarrow> int list" where
  "claimed_scores vals = map (\<lambda>val. int (decimal_value (strip val))) (filter decimal_field vals)"

definition claimed_panas :: "string list list \<Rightarrow> (string, int) dict list" where
  "claimed_panas reader =
     map (\<lambda>r. zip PANAS_ITEMS (claimed_scores (tl r)))
       (filter (\<lambda>r. marker_row r \<and> length PANAS_ITEMS \<le> length (claimed_scores (tl r))) reader)"

text \<open>
  The counted fields that \<^verbatim>\<open>int\<close> does not parse, by their text: a stripped text with
  a character that is not a decimal digit (a superscript), a stripped text of more than
  4300 digits, and a field with one of the separators 28 to 31, which \<^verbatim>\<open>strip\<close>
  removes and \<^verbatim>\<open>int\<close> does not. A row is rejected when one of its counted fields is
  of this kind.
\<close>

definition strip_only_space :: "char \<Rightarrow> bool" where
  "strip_only_space c \<longleftrightarrow> (of_char c :: nat) \<in> {28, 29, 30, 31}"

definition int_rejects :: "string \<Rightarrow> bool" where
  "int_rejects val \<longleftrightarrow>
     \<not> list_all ascii_digit (strip val) \<or>
     int_max_str_digits < length (strip val) \<or>
     list_ex strip_only_space val"

definition row_rejected :: "string list \<Rightarrow> bool" where
  "row_rejected r \<longleftrightarrow> list_ex (\<lambda>val. isdigit (strip val) \<and> int_rejects val) (tl r)"

section \<open>Regression targets\<close>

text \<open>\<^verbatim>\<open>xs[i]\<close> on a list: a negative index counts from the end.\<close>

definition py_index :: "'a list \<Rightarrow> int \<Rightarrow> py_error + 'a" where
  "py_index xs i =
     (if 0 \<le> i \<and> i < int (length xs) then Inr (xs ! nat i)
      else if i < 0 \<and> - int (length xs) \<le> i then Inr (xs ! nat (int (length xs) + i))
      else Inl IndexError)"

text \<open>\<^verbatim>\<open>[d[key] for key in keys]\<close>\<close>

fun lookup_all :: "('k, 'v) dict \<Rightarrow> 'k list \<Rightarrow> py_error + 'v list" where
  "lookup_all d [] = Inr []"
| "lookup_all d (key # keys) =
     (case getitem d key of
        Inl e \<Rightarrow> Inl e
      | Inr v \<Rightarrow> (case lookup_all d keys of Inl e \<Rightarrow> Inl e | Inr vs \<Rightarrow> Inr (v # vs)))"

text \<open>
  The loop of \<^verbatim>\<open>load_wesad_dataset\<close> over the window labels of one subject, with the
  list \<^verbatim>\<open>y_reg\<close> as accumulator. The array made of \<^verbatim>\<open>y_reg\<close> holds numbers; they
  are reals here.
\<close>

fun y_reg_loop ::
  "(string, int) dict list \<Rightarrow> int list \<Rightarrow> real list list \<Rightarrow> py_error + real list list" where
  "y_reg_loop panas_per_condition [] y_reg = Inr y_reg"
| "y_reg_loop panas_per_condition (label # rest) y_reg =
     (let condition_idx = label - 1
      in if int (length panas_per_condition) \<le> condition_idx then
           y_reg_loop panas_per_condition rest (y_reg @ [replicate (length TARGET_PANAS) 0])
         else
           (case py_index panas_per_condition condition_idx of
              Inl e \<Rightarrow> Inl e
            | Inr d \<Rightarrow>
                (case lookup_all d TARGET_PANAS of
                   Inl e \<Rightarrow> Inl e
                 | Inr score_vec \<Rightarrow>
                     y_reg_loop panas_per_condition rest (y_reg @ [map real_of_int score_vec]))))"

text \<open>
  The windows, labels and regression targets of one subject, from the normalized signal
  matrix (the list of its rows), the label series and the rows of the questionnaire: the
  body of the \<^verbatim>\<open>try\<close> block after loading and normalizing.
\<close>

definition subject_examples ::
  "'a list \<Rightarrow> int list \<Rightarrow> string list list
     \<Rightarrow> py_error + ('a list list \<times> int list \<times> real list list)" where
  "subject_examples X y reader =
     (case create_windows_default X y of
        Inl e \<Rightarrow> Inl e
      | Inr (win_x, win_y) \<Rightarrow>
          (let panas_per_condition = fst (extract_panas_scores reader)
           in case y_reg_loop panas_per_condition win_y [] of
                Inl e \<Rightarrow> Inl e
              | Inr y_reg \<Rightarrow> Inr (win_x, win_y, y_reg)))"

text \<open>The later cell \<^verbatim>\<open>y_reg = (y_reg - 1) / 4.0\<close>, on every entry of the array.\<close>

definition rescale_y_reg :: "real list list \<Rightarrow> real list list" where
  "rescale_y_reg y_reg = map (map (\<lambda>v. (v - 1) / 4)) y_reg"

text \<open>
  The target vector that the specification describes for a label: zeros when the label has
  no score set, else the scores of set \<open>label - 1\<close> under the target adjectives.
\<close>

definition claimed_target :: "(string, int) dict list \<Rightarrow> int \<Rightarrow> real list" where
  "claimed_target panas label =
     (if int (length panas) \<le> label - 1 then replicate 7 0
      else map (\<lambda>key. real_of_int (the (map_of (panas ! nat (label - 1)) key))) TARGET_PANAS)"

section \<open>Loading and downsampling a recording\<close>

subsection \<open>The row count\<close>

text \<open>
  \<^verbatim>\<open>new_len = int(len(label) * scale)\<close> is computed in double precision. A positive double
  is \<open>m * 2 ^ e\<close> for a natural number \<open>m\<close> of at most 53 bits; every operation returns
  the double nearest to the exact result, a tie going to the even significand. The model
  keeps the numbers as natural numbers over a fixed power of two (no overflow or underflow
  occurs at these magnitudes).
\<close>

fun bit_length :: "nat \<Rightarrow> nat" where
  "bit_length n = (if n = 0 then 0 else Suc (bit_length (n div 2)))"

declare bit_length.simps [simp del]

text \<open>The integer nearest to \<open>a / b\<close>, a tie going to the even one.\<close>

definition round_div :: "nat \<Rightarrow> nat \<Rightarrow> nat" where
  "round_div a b =
     (let q = a div b; r = a mod b
      in if 2 * r < b then q
         else if b < 2 * r then q + 1
         else if even q then q else q + 1)"

text \<open>The natural number of at most 53 significant bits nearest to \<open>p\<close>.\<close>

definition round53 :: "nat \<Rightarrow> nat" where
  "round53 p = (let s = bit_length p - 53 in round_div p (2 ^ s) * 2 ^ s)"

text \<open>
  \<^verbatim>\<open>scale = SAMPLING_RATE_TARGET / SAMPLING_RATE_ORIG\<close>: the quotient 4 / 700 lies between
  \<open>2 ^ 52 / 2 ^ 60\<close> and \<open>2 ^ 53 / 2 ^ 60\<close>, so its double is \<open>scale_mantissa / 2 ^ 60\<close>.
\<close>

definition scale_mantissa :: nat where
  "scale_mantissa = round_div (SAMPLING_RATE_TARGET * 2 ^ 60) SAMPLING_RATE_ORIG"

text \<open>
  The length becomes a double, the product is rounded, and \<^verbatim>\<open>int\<close> cuts the fraction
  off.
\<close>

definition new_len :: "nat \<Rightarrow> nat" where
  "new_len n = round53 (round53 n * scale_mantissa) div 2 ^ 60"

subsection \<open>Arrays and the recording\<close>

text \<open>
  A one-dimensional array is the list of its entries; a two-dimensional array is the list
  of its columns, so that the number of rows is the length of every column, and joining
  arrays along axis 1 appends their columns.
\<close>

datatype ndarray = Arr1 "real list" | Arr2 "real list list"

record recording =
  label :: "int list"
  signal :: "(string, (string, ndarray) dict) dict"

definition SIGNAL_MAP :: "(string, (string, string option) dict) dict" where
  "SIGNAL_MAP =
     [(''EDA'', [(''chest'', Some ''EDA''), (''wrist'', Some ''EDA'')]),
      (''TEMP'', [(''chest'', Some ''Temp''), (''wrist'', Some ''TEMP'')]),
      (''RESP'', [(''chest'', Some ''Resp''), (''wrist'', None)]),
      (''ECG'', [(''chest'', Some ''ECG''), (''wrist'', None)]),
      (''ACC'', [(''chest'', Some ''ACC''), (''wrist'', Some ''ACC'')]),
      (''EMG'', [(''chest'', Some ''EMG''), (''wrist'', None)]),
      (''BVP'', [(''chest'', None), (''wrist'', Some ''BVP'')])]"

text \<open>
  \<^verbatim>\<open>scipy.signal.resample\<close> is a parameter of the model: \<open>rs n xs\<close> is the result of
  resampling the series \<open>xs\<close> to \<open>n\<close> samples, or the exception that the library
  raises. A two-dimensional source is resampled along axis 0, column by column.
\<close>

type_synonym resampler = "nat \<Rightarrow> real list \<Rightarrow> py_error + real list"

fun resample_columns :: "resampler \<Rightarrow> nat \<Rightarrow> real list list \<Rightarrow> py_error + real list list" where
  "resample_columns rs n [] = Inr []"
| "resample_columns rs n (c # cs) =
     (case rs n c of
        Inl e \<Rightarrow> Inl e
      | Inr c' \<Rightarrow> (case resample_columns rs n cs of Inl e \<Rightarrow> Inl e | Inr cs' \<Rightarrow> Inr (c' # cs')))"

text \<open>
  \<^verbatim>\<open>np.concatenate(arrays, axis=1)\<close>: an empty list of arrays raises, and so do arrays
  whose numbers of rows differ.
\<close>

definition np_concatenate :: "real list list list \<Rightarrow> py_error + real list list" where
  "np_concatenate arrays =
     (if arrays = [] then Inl ValueError
      else if \<exists>c \<in> set (concat arrays). length c \<noteq> length (hd (concat arrays)) then Inl ValueError
      else Inr (concat arrays))"

text \<open>\<^verbatim>\<open>.round()\<close> of numpy on one entry: to the nearest integer, a tie to the even one.\<close>

definition np_round :: "real \<Rightarrow> int" where
  "np_round x =
     (if x - of_int \<lfloor>x\<rfloor> < 1 / 2 then \<lfloor>x\<rfloor>
      else if 1 / 2 < x - of_int \<lfloor>x\<rfloor> then \<lfloor>x\<rfloor> + 1
      else if even \<lfloor>x\<rfloor> then \<lfloor>x\<rfloor> else \<lfloor>x\<rfloor> + 1)"

subsection \<open>The function\<close>

text \<open>The inner loop, over \<^verbatim>\<open>['chest', 'wrist']\<close>, with the list \<^verbatim>\<open>parts\<close>.\<close>

fun parts_loop ::
  "resampler \<Rightarrow> nat \<Rightarrow> recording \<Rightarrow> string \<Rightarrow> (string, string option) dict \<Rightarrow> string list
     \<Rightarrow> real list list list \<Rightarrow> py_error + real list list list" where
  "parts_loop rs n data device sig_key [] parts = Inr parts"
| "parts_loop rs n data device sig_key (part # rest) parts =
     (if device = part \<or> device = ''both'' then
        (case getitem sig_key part of
           Inl e \<Rightarrow> Inl e
         | Inr None \<Rightarrow> parts_loop rs n data device sig_key rest parts
         | Inr (Some key) \<Rightarrow>
             (case getitem (signal data) part of
                Inl e \<Rightarrow> Inl e
              | Inr channels \<Rightarrow>
                  (case getitem channels key of
                     Inl e \<Rightarrow> Inl e
                   | Inr source \<Rightarrow>
                       (case resample_columns rs n
                               (case source of Arr1 xs \<Rightarrow> [xs] | Arr2 cols \<Rightarrow> cols) of
                          Inl e \<Rightarrow> Inl e
                        | Inr s_down \<Rightarrow>
                            parts_loop rs n data device sig_key rest (parts @ [s_down])))))
      else parts_loop rs n data device sig_key rest parts)"

text \<open>The outer loop, over the requested signals, with the list \<^verbatim>\<open>signal_list\<close>.\<close>

fun signals_loop ::
  "resampler \<Rightarrow> nat \<Rightarrow> recording \<Rightarrow> string \<Rightarrow> string list
     \<Rightarrow> real list list list \<Rightarrow> py_error + real list list list" where
  "signals_loop rs n data device [] signal_list = Inr signal_list"
| "signals_loop rs n data device (sig # rest) signal_list =
     (case getitem SIGNAL_MAP sig of
        Inl e \<Rightarrow> Inl e
      | Inr sig_key \<Rightarrow>
          (case parts_loop rs n data device sig_key [''chest'', ''wrist''] [] of
             Inl e \<Rightarrow> Inl e
           | Inr parts \<Rightarrow>
               if parts \<noteq> [] then
                 (case np_concatenate parts of
                    Inl e \<Rightarrow> Inl e
                  | Inr joined \<Rightarrow> signals_loop rs n data device rest (signal_list @ [joined]))
               else signals_loop rs n data device rest signal_list))"

text \<open>
  \<^verbatim>\<open>load_and_downsample\<close>, from the unpickled recording. The result is the signal matrix
  (the list of its columns) and the resampled label series.
\<close>

definition load_and_downsample ::
  "resampler \<Rightarrow> recording \<Rightarrow> string list \<Rightarrow> string \<Rightarrow> py_error + (real list list \<times> int list)" where
  "load_and_downsample rs data signals device =
     (let n = new_len (length (label data))
      in case signals_loop rs n data device signals [] of
           Inl e \<Rightarrow> Inl e
         | Inr signal_list \<Rightarrow>
             (case np_concatenate signal_list of
                Inl e \<Rightarrow> Inl e
              | Inr all_signals \<Rightarrow>
                  (case rs n (map real_of_int (label data)) of
                     Inl e \<Rightarrow> Inl e
                   | Inr resampled \<Rightarrow> Inr (all_signals, map np_round resampled))))"

text \<open>
  The sources that a requested signal resolves to under a device selection, as pairs of
  the device and the key of the array: at most one for each of the two devices. A signal
  of the table that resolves to none is unavailable.
\<close>

definition part_pairing ::
  "string \<Rightarrow> (string, string option) dict \<Rightarrow> string \<Rightarrow> (string \<times> string) list" where
  "part_pairing device sig_key part =
     (if device = part \<or> device = ''both'' then
        (case map_of sig_key part of Some (Some key) \<Rightarrow> [(part, key)] | _ \<Rightarrow> [])
      else [])"

definition pairings :: "string \<Rightarrow> string \<Rightarrow> (string \<times> string) list" where
  "pairings device sig =
     (case map_of SIGNAL_MAP sig of
        None \<Rightarrow> []
      | Some sig_key \<Rightarrow> concat (map (part_pairing device sig_key) [''chest'', ''wrist'']))"

definition unavailable :: "string \<Rightarrow> string \<Rightarrow> bool" where
  "unavailable device sig \<longleftrightarrow> map_of SIGNAL_MAP sig \<noteq> None \<and> pairings device sig = []"

text \<open>The array of a pairing in a recording, as the list of its columns.\<close>

definition source_columns :: "recording \<Rightarrow> string \<times> string \<Rightarrow> real list list option" where
  "source_columns data p =
     (case map_of (signal data) (fst p) of
        None \<Rightarrow> None
      | Some channels \<Rightarrow>
          (case map_of channels (snd p) of
             None \<Rightarrow> None
           | Some (Arr1 xs) \<Rightarrow> Some [xs]
           | Some (Arr2 cols) \<Rightarrow> Some cols))"

text \<open>
  What the model takes from the library: a resampled series has the requested number of
  samples, and resampling a series that is not empty to a positive number of samples
  returns.
\<close>

definition resample_contract :: "resampler \<Rightarrow> bool" where
  "resample_contract rs \<longleftrightarrow>
     (\<forall>n xs ys. rs n xs = Inr ys \<longrightarrow> length ys = n) \<and>
     (\<forall>n xs. 0 < n \<and> xs \<noteq> [] \<longrightarrow> \<not> isl (rs n xs))"

text \<open>
  The requested signals are names of the table, and the recording holds the array of every
  pairing they resolve to, with no empty column.
\<close>

definition sources_present :: "recording \<Rightarrow> string list \<Rightarrow> string \<Rightarrow> bool" where
  "sources_present data signals device \<longleftrightarrow>
     (\<forall>s \<in> set signals.
        map_of SIGNAL_MAP s \<noteq> None \<and>
        (\<forall>p \<in> set (pairings device s).
           case source_columns data p of None \<Rightarrow> False | Some cols \<Rightarrow> [] \<notin> set cols))"

text \<open>Every column of every array of a list has \<open>n\<close> entries.\<close>

definition uniform :: "nat \<Rightarrow> real list list list \<Rightarrow> bool" where
  "uniform n arrays \<longleftrightarrow> (\<forall>a \<in> set arrays. \<forall>c \<in> set a. length c = n)"

section \<open>Audio embeddings and tags\<close>

definition EMBED_SIZE :: nat where "EMBED_SIZE = 512"

definition assign_gpu :: "nat \<Rightarrow> nat" where
  "assign_gpu index = (if index mod 2 = 0 then 0 else 1)"

text \<open>\<^verbatim>\<open>os.path.basename\<close>: what follows the last slash.\<close>

definition basename :: "string \<Rightarrow> string" where
  "basename path = rev (takeWhile (\<lambda>c. c \<noteq> CHR ''/'') (rev path))"

text \<open>
  The library calls of \<^verbatim>\<open>process_audio\<close> are parameters of the model; a call returns
  its value or the message of the exception it raises. \<open>set_device\<close> is
  \<^verbatim>\<open>torch.cuda.set_device\<close>; \<open>load_snippet\<close> is the loading of the file and the cut of
  its middle 30 seconds; \<open>get_audio_embedding\<close> is the embedding, as the list of its
  columns; \<open>column_mean\<close> is the mean of one column; \<open>top_tags\<close> is the tagger with the
  conversion of its scores.
\<close>

record 'y audio_lib =
  set_device :: "nat \<Rightarrow> string option"
  load_snippet :: "string \<Rightarrow> string + 'y"
  get_audio_embedding :: "'y \<Rightarrow> string + real list list"
  column_mean :: "real list \<Rightarrow> real"
  top_tags :: "string \<Rightarrow> string + (string \<times> real) list"

text \<open>The two dictionaries that \<^verbatim>\<open>process_audio\<close> returns.\<close>

datatype audio_result =
  Features string "real list" "(string \<times> real) list"
| Failed string string

text \<open>
  \<^verbatim>\<open>process_audio\<close>. The left summand is an exception that leaves the function: the
  device is selected before the \<^verbatim>\<open>try\<close> block, everything else inside it.
\<close>

definition process_audio :: "'y audio_lib \<Rightarrow> string \<times> nat \<Rightarrow> string + audio_result" where
  "process_audio lib args =
     (case args of (path, gpu_id) \<Rightarrow>
        (case set_device lib gpu_id of
           Some e \<Rightarrow> Inl e
         | None \<Rightarrow>
             (let fname = basename path
              in Inr (case load_snippet lib path of
                        Inl e \<Rightarrow> Failed fname e
                      | Inr y \<Rightarrow>
                          (case get_audio_embedding lib y of
                             Inl e \<Rightarrow> Failed fname e
                           | Inr emb \<Rightarrow>
                               (let emb_mean = map (column_mean lib) emb
                                in case top_tags lib path of
                                     Inl e \<Rightarrow> Failed fname e
                                   | Inr tags \<Rightarrow> Features fname emb_mean tags))))))"

text \<open>
  \<^verbatim>\<open>pool.map(f, items)\<close>: the results in the order of the items, or, when a worker
  raises, an exception in the parent and no result list. Which of several exceptions the
  parent sees depends on the timing of the workers; the model takes the first in the order
  of the items.
\<close>

fun pool_map :: "('a \<Rightarrow> string + 'b) \<Rightarrow> 'a list \<Rightarrow> string + 'b list" where
  "pool_map f [] = Inr []"
| "pool_map f (x # xs) =
     (case f x of
        Inl e \<Rightarrow> Inl e
      | Inr y \<Rightarrow> (case pool_map f xs of Inl e \<Rightarrow> Inl e | Inr ys \<Rightarrow> Inr (y # ys)))"

text \<open>\<^verbatim>\<open>[(f, assign_gpu(i)) for i, f in enumerate(audio_files)]\<close>\<close>

definition file_gpu_pairs :: "string list \<Rightarrow> (string \<times> nat) list" where
  "file_gpu_pairs audio_files = map (\<lambda>(i, f). (f, assign_gpu i)) (enumerate 0 audio_files)"

definition audio_results :: "'y audio_lib \<Rightarrow> string list \<Rightarrow> string + audio_result list" where
  "audio_results lib audio_files = pool_map (process_audio lib) (file_gpu_pairs audio_files)"

text \<open>
  What the model takes from the libraries: an embedding has \<open>EMBED_SIZE\<close> columns, and the
  tagger returns at least one tag.
\<close>

definition audio_lib_contract :: "'y audio_lib \<Rightarrow> bool" where
  "audio_lib_contract lib \<longleftrightarrow>
     (\<forall>y emb. get_audio_embedding lib y = Inr emb \<longrightarrow> length emb = EMBED_SIZE) \<and>
     (\<forall>path tags. top_tags lib path = Inr tags \<longrightarrow> tags \<noteq> [])"

text \<open>
  An entry as the specification describes it for a file: a record of features with the
  name of the file, an embedding of \<open>EMBED_SIZE\<close> numbers and at least one tag, or a record
  of an error with the name of the file.
\<close>

definition entry_for :: "string \<Rightarrow> audio_result \<Rightarrow> bool" where
  "entry_for path r \<longleftrightarrow>
     (case r of
        Features file emb tags \<Rightarrow> file = basename path \<and> length emb = EMBED_SIZE \<and> tags \<noteq> []
      | Failed file e \<Rightarrow> file = basename path)"

text \<open>A call of the \<^verbatim>\<open>try\<close> block raises for the file.\<close>

definition try_block_raises :: "'y audio_lib \<Rightarrow> string \<Rightarrow> bool" where
  "try_block_raises lib path \<longleftrightarrow>
     (case load_snippet lib path of
        Inl e \<Rightarrow> True
      | Inr y \<Rightarrow>
          (case get_audio_embedding lib y of
             Inl e \<Rightarrow> True
           | Inr emb \<Rightarrow> isl (top_tags lib path)))"

definition is_failed :: "audio_result \<Rightarrow> bool" where
  "is_failed r \<longleftrightarrow> (case r of Features file emb tags \<Rightarrow> False | Failed file e \<Rightarrow> True)"

section \<open>Properties\<close>

subsection \<open>Majority label and window loop\<close>

lemma argmax_loop_spec:
  assumes "best < length pre" "pre ! best = v"
    and "\<forall>j<length pre. pre ! j \<le> v" and "\<forall>j<best. pre ! j < v"
  shows "argmax_loop cs (length pre) best v < length (pre @ cs) \<and>
         (\<forall>j<length (pre @ cs). (pre @ cs) ! j \<le> (pre @ cs) ! argmax_loop cs (length pre) best v) \<and>
         (\<forall>j<argmax_loop cs (length pre) best v. (pre @ cs) ! j < (pre @ cs) ! argmax_loop cs (length pre) best v)"
  using assms
proof (induction cs arbitrary: pre best v)
  case Nil
  then show ?case by simp
next
  case (Cons c cs)
  show ?case
  proof (cases "v < c")
    case True
    have a1: "length pre < length (pre @ [c])" by simp
    have a2: "(pre @ [c]) ! length pre = c" by simp
    have a3: "\<forall>j<length (pre @ [c]). (pre @ [c]) ! j \<le> c"
      using Cons.prems(3) True by (auto simp: nth_append less_Suc_eq intro: order_trans less_imp_le)
    have a4: "\<forall>j<length pre. (pre @ [c]) ! j < c"
      using Cons.prems(3) True by (auto simp: nth_append intro: le_less_trans)
    from Cons.IH [OF a1 a2 a3 a4] True show ?thesis by simp
  next
    case False
    have a1: "best < length (pre @ [c])" using Cons.prems(1) by simp
    have a2: "(pre @ [c]) ! best = v" using Cons.prems(1,2) by (simp add: nth_append)
    have a3: "\<forall>j<length (pre @ [c]). (pre @ [c]) ! j \<le> v"
      using Cons.prems(3) False by (auto simp: nth_append less_Suc_eq)
    have a4: "\<forall>j<best. (pre @ [c]) ! j < v"
      using Cons.prems(1,4) by (auto simp: nth_append)
    from Cons.IH [OF a1 a2 a3 a4] False show ?thesis by simp
  qed
qed

lemma argmax_first_max:
  assumes "argmax cs = Inr m"
  shows "m < length cs \<and> (\<forall>j<length cs. cs ! j \<le> cs ! m) \<and> (\<forall>j<m. cs ! j < cs ! m)"
proof (cases cs)
  case Nil
  with assms show ?thesis by (simp add: argmax_def)
next
  case (Cons c cs')
  have m: "m = argmax_loop cs' (length [c]) 0 c"
    using assms Cons by (simp add: argmax_def)
  have "argmax_loop cs' (length [c]) 0 c < length ([c] @ cs') \<and>
         (\<forall>j<length ([c] @ cs'). ([c] @ cs') ! j \<le> ([c] @ cs') ! argmax_loop cs' (length [c]) 0 c) \<and>
         (\<forall>j<argmax_loop cs' (length [c]) 0 c. ([c] @ cs') ! j < ([c] @ cs') ! argmax_loop cs' (length [c]) 0 c)"
    by (rule argmax_loop_spec) simp_all
  then show ?thesis using m Cons by simp
qed

lemma argmax_total: "cs \<noteq> [] \<Longrightarrow> \<exists>m. argmax cs = Inr m"
  by (cases cs) (simp_all add: argmax_def)

lemma bincount_Inr:
  assumes "bincount ys = Inr cs"
  shows "(\<forall>v \<in> set ys. 0 \<le> v \<and> nat v < length cs) \<and> (\<forall>k<length cs. cs ! k = count_list ys (int k))
         \<and> (cs = [] \<longleftrightarrow> ys = [])"
proof -
  have nn: "\<forall>v \<in> set ys. 0 \<le> v"
    using assms by (auto simp: bincount_def split: if_splits)
  have cs: "cs = map (\<lambda>v. count_list ys (int v)) [0 ..< (if ys = [] then 0 else Suc (nat (Max (set ys))))]"
    using assms by (auto simp: bincount_def split: if_splits)
  have "\<forall>v \<in> set ys. nat v < length cs"
  proof
    fix v assume v: "v \<in> set ys"
    then have "v \<le> Max (set ys)" by simp
    then have "nat v < Suc (nat (Max (set ys)))" by linarith
    moreover have "length cs = Suc (nat (Max (set ys)))" using v cs by (auto simp del: upt_Suc)
    ultimately show "nat v < length cs" by simp
  qed
  moreover have "\<forall>k<length cs. cs ! k = count_list ys (int k)"
    using cs by (auto simp del: upt_Suc)
  moreover have "cs = [] \<longleftrightarrow> ys = []" using cs by auto
  ultimately show ?thesis using nn by blast
qed

lemma majority_label_mode:
  assumes "majority_label ys = Inr m"
  shows "m \<in> set ys \<and> (\<forall>v. count_list ys v \<le> count_list ys m)
         \<and> (\<forall>v. count_list ys v = count_list ys m \<longrightarrow> m \<le> v)"
proof -
  from assms obtain cs k where cs: "bincount ys = Inr cs" and k: "argmax cs = Inr k" and m: "m = int k"
    by (auto simp: majority_label_def split: sum.splits)
  note b = bincount_Inr [OF cs]
  note a = argmax_first_max [OF k]
  have cm: "count_list ys m = cs ! k" using a b m by simp
  have ne: "ys \<noteq> []" using a b by auto
  have le: "count_list ys v \<le> count_list ys m" for v
  proof (cases "v \<in> set ys")
    case True
    then have "nat v < length cs" "0 \<le> v" using b by auto
    then have "cs ! nat v = count_list ys v" "cs ! nat v \<le> cs ! k" using a b by auto
    then show ?thesis using cm by simp
  next
    case False
    then show ?thesis by (simp add: count_list_0_iff)
  qed
  obtain w where w: "w \<in> set ys" using ne by (cases ys) auto
  then have "0 < count_list ys w" using count_list_0_iff [of ys w] by auto
  then have pos: "0 < count_list ys m" using le [of w] by simp
  then have mem: "m \<in> set ys" using count_list_0_iff [of ys m] by auto
  have least: "m \<le> v" if eq: "count_list ys v = count_list ys m" for v
  proof (rule ccontr)
    assume "\<not> m \<le> v"
    then have lt: "v < m" by simp
    have "v \<in> set ys" using eq pos count_list_0_iff [of ys v] by auto
    then have v0: "0 \<le> v" using b by auto
    then have "nat v < k" using lt m by simp
    then have "cs ! nat v < cs ! k" "nat v < length cs" using a by auto
    then have "count_list ys v < count_list ys m" using b cm v0 by simp
    then show False using eq by simp
  qed
  show ?thesis using mem le least by blast
qed

lemma majority_label_total:
  assumes "ys \<noteq> []" "\<forall>v \<in> set ys. 0 \<le> v"
  shows "\<exists>m. majority_label ys = Inr m"
proof -
  have "bincount ys = Inr (map (\<lambda>v. count_list ys (int v)) [0 ..< Suc (nat (Max (set ys)))])"
    using assms unfolding bincount_def by (simp del: upt_Suc) force
  then obtain cs where cs: "bincount ys = Inr cs" "cs \<noteq> []"
    by (auto simp del: upt_Suc)
  then obtain k where "argmax cs = Inr k" using argmax_total by blast
  then show ?thesis using cs by (simp add: majority_label_def)
qed

lemma windows_loop_Inr:
  assumes "windows_loop X y w starts (ws, ls) = Inr (ws', ls')"
  shows "ws' = ws @ map (\<lambda>i. slice X i (i + w)) (filter (\<lambda>i. 0 \<notin> set (slice y i (i + w))) starts) \<and>
         (\<exists>ms. ls' = ls @ ms \<and>
               list_all2 (\<lambda>i m. majority_label (slice y i (i + w)) = Inr m)
                 (filter (\<lambda>i. 0 \<notin> set (slice y i (i + w))) starts) ms)"
  using assms
proof (induction starts arbitrary: ws ls)
  case Nil
  then show ?case by simp
next
  case (Cons i rest)
  show ?case
  proof (cases "0 \<in> set (slice y i (i + w))")
    case True
    with Cons.prems have "windows_loop X y w rest (ws, ls) = Inr (ws', ls')" by simp
    from Cons.IH [OF this] True show ?thesis by simp
  next
    case False
    with Cons.prems obtain m where m: "majority_label (slice y i (i + w)) = Inr m"
      and rec: "windows_loop X y w rest (ws @ [slice X i (i + w)], ls @ [m]) = Inr (ws', ls')"
      by (auto simp: Let_def split: sum.splits)
    from Cons.IH [OF rec] obtain ms where
      ws': "ws' = (ws @ [slice X i (i + w)]) @
                  map (\<lambda>i. slice X i (i + w)) (filter (\<lambda>i. 0 \<notin> set (slice y i (i + w))) rest)"
      and ls': "ls' = (ls @ [m]) @ ms"
      and all: "list_all2 (\<lambda>i m. majority_label (slice y i (i + w)) = Inr m)
                 (filter (\<lambda>i. 0 \<notin> set (slice y i (i + w))) rest) ms"
      by blast
    have "ls' = ls @ (m # ms)" using ls' by simp
    moreover have "list_all2 (\<lambda>i m. majority_label (slice y i (i + w)) = Inr m)
                 (filter (\<lambda>i. 0 \<notin> set (slice y i (i + w))) (i # rest)) (m # ms)"
      using False m all by simp
    ultimately show ?thesis using ws' False by auto
  qed
qed

lemma windows_loop_total:
  assumes "\<forall>i \<in> set starts. 0 \<notin> set (slice y i (i + w)) \<longrightarrow> (\<exists>m. majority_label (slice y i (i + w)) = Inr m)"
  shows "\<exists>r. windows_loop X y w starts (ws, ls) = Inr r"
  using assms
proof (induction starts arbitrary: ws ls)
  case Nil
  then show ?case by simp
next
  case (Cons i rest)
  then show ?case by (auto simp: Let_def split: sum.splits)
qed

lemma create_windows_Inr:
  assumes "create_windows X y w s = Inr (windows, labels)"
  shows "windows = map (\<lambda>i. slice X i (i + w)) (kept_starts y (length X) w s) \<and>
         list_all2 (\<lambda>i m. majority_label (slice y i (i + w)) = Inr m) (kept_starts y (length X) w s) labels"
proof -
  from assms have "windows_loop X y w (window_starts (length X) w s) ([], []) = Inr (windows, labels)"
    by (simp add: create_windows_def split: if_splits)
  from windows_loop_Inr [OF this] show ?thesis by (auto simp: kept_starts_def)
qed

lemma length_py_range:
  "0 < step \<Longrightarrow> length (py_range i stop step) = nat ((stop - i + step - 1) div step)"
proof (induction i stop step rule: py_range.induct)
  case (1 i stop step)
  show ?case
  proof (cases "i < stop")
    case True
    have "(stop - i + step - 1) div step = (stop - (i + step) + step - 1) div step + 1"
    proof -
      have "stop - i + step - 1 = (stop - (i + step) + step - 1) + 1 * step" by simp
      then show ?thesis using "1.prems" by (metis div_mult_self1 less_int_code(1) add.commute)
    qed
    moreover have "0 \<le> (stop - (i + step) + step - 1) div step"
      using True "1.prems" by (simp add: pos_imp_zdiv_nonneg_iff)
    ultimately show ?thesis
      using True "1.prems" "1.IH" by (subst py_range.simps) (simp add: nat_add_distrib)
  next
    case False
    have "(stop - i + step - 1) div step \<le> 0"
    proof (cases "stop - i + step - 1 < 0")
      case True
      then show ?thesis using "1.prems" by (simp add: pos_imp_zdiv_neg_iff less_imp_le)
    next
      case nonneg: False
      then have "(stop - i + step - 1) div step = 0"
        using False by (intro div_pos_pos_trivial) simp_all
      then show ?thesis by simp
    qed
    with False show ?thesis by (subst py_range.simps) simp
  qed
qed

subsection \<open>The windows of a recording\<close>

lemma py_range_bounds: "x \<in> set (py_range i stop step) \<Longrightarrow> i \<le> x \<and> x < stop"
proof (induction i stop step rule: py_range.induct)
  case (1 i stop step)
  show ?case
  proof (cases "0 < step \<and> i < stop")
    case True
    with "1.prems" have "x = i \<or> x \<in> set (py_range (i + step) stop step)"
      by (subst (asm) py_range.simps) simp
    then show ?thesis using True "1.IH" by auto
  next
    case False
    with "1.prems" show ?thesis by (subst (asm) py_range.simps) simp
  qed
qed

lemma window_starts_bound:
  assumes "i \<in> set (window_starts n w s)"
  shows "i + w < n"
proof -
  from assms obtain x where x: "x \<in> set (py_range 0 (int n - int w) (int s))" and i: "i = nat x"
    by (auto simp: window_starts_def)
  from py_range_bounds [OF x] i show ?thesis by linarith
qed

lemma length_window_starts:
  assumes "0 < s" "w \<le> n"
  shows "length (window_starts n w s) = (n - w + s - 1) div s"
proof -
  have "length (window_starts n w s) = nat ((int n - int w + int s - 1) div int s)"
    using assms by (simp add: window_starts_def length_py_range)
  also have "int n - int w + int s - 1 = int (n - w + s - 1)"
    using assms by (simp add: of_nat_diff)
  also have "nat (int (n - w + s - 1) div int s) = (n - w + s - 1) div s"
    by (simp add: zdiv_int [symmetric])
  finally show ?thesis .
qed

lemma create_windows_total:
  assumes "0 < stride" "0 < window_size" "length X \<le> length y" "\<forall>v \<in> set y. 0 \<le> v"
  shows "\<exists>windows labels. create_windows X y window_size stride = Inr (windows, labels)"
proof -
  have "\<exists>m. majority_label (slice y i (i + window_size)) = Inr m"
    if "i \<in> set (window_starts (length X) window_size stride)" for i
  proof -
    have "i + window_size < length X" using that by (rule window_starts_bound)
    then have "slice y i (i + window_size) \<noteq> []"
      using assms(2,3) by (simp add: slice_def)
    moreover have "\<forall>v \<in> set (slice y i (i + window_size)). 0 \<le> v"
      using assms(4) by (auto simp: slice_def dest: in_set_dropD in_set_takeD)
    ultimately show ?thesis by (rule majority_label_total)
  qed
  then have "\<exists>r. windows_loop X y window_size (window_starts (length X) window_size stride) ([], []) = Inr r"
    by (intro windows_loop_total) blast
  then show ?thesis using assms(1) by (auto simp: create_windows_def)
qed

text \<open>
  C2. The claim has a window start at every \<open>i\<close> with \<open>i + W \<le> N\<close>, hence
  \<open>(N - W) div S + 1\<close> windows when no label is 0. The loop runs over
  \<^verbatim>\<open>range(0, len(X) - window_size, stride)\<close>, which stops before \<open>i + W = N\<close>: a
  recording of exactly one default window (60 rows) gives no window where the claim has one,
  and the 40-row recording of the specification's own example (\<open>W = 8\<close>, \<open>S = 4\<close>,
  labels 1 then 2) gives 8 windows where the claim has 9: the window starting at 32 is missing.
\<close>

theorem create_windows_omits_last_full_window:
  "create_windows_default (replicate 60 (0::nat)) (replicate 60 1) = Inr ([], []) \<and>
   create_windows [0 ..< 40] (replicate 20 1 @ replicate 20 2) 8 4 =
     Inr (map (\<lambda>i. [i ..< i + 8]) [0, 4, 8, 12, 16, 20, 24, 28], [1, 1, 1, 1, 1, 2, 2, 2])"
  by code_simp

text \<open>
  Over the start indices that the loop visits, the filter is exact: when
  \<^verbatim>\<open>create_windows\<close> returns, the windows it returns are those of the visited start
  indices whose label slice has no 0, in order, and no assigned label is 0.
\<close>

lemma create_windows_visited_kept:
  assumes "create_windows X y window_size stride = Inr (windows, labels)"
  shows "windows = map (\<lambda>i. slice X i (i + window_size))
                     (filter (\<lambda>i. 0 \<notin> set (slice y i (i + window_size)))
                        (window_starts (length X) window_size stride)) \<and>
         length labels = length windows \<and> 0 \<notin> set labels"
proof -
  note r = create_windows_Inr [OF assms]
  have w: "windows = map (\<lambda>i. slice X i (i + window_size))
                     (filter (\<lambda>i. 0 \<notin> set (slice y i (i + window_size)))
                        (window_starts (length X) window_size stride))"
    using r by (simp add: kept_starts_def)
  have len: "length labels = length windows"
    using r by (auto dest: list_all2_lengthD)
  have "l \<noteq> 0" if "l \<in> set labels" for l
  proof -
    from that obtain k where k: "k < length labels" "labels ! k = l"
      by (auto simp: in_set_conv_nth)
    let ?i = "kept_starts y (length X) window_size stride ! k"
    have kl: "k < length (kept_starts y (length X) window_size stride)"
      using r k by (auto dest: list_all2_lengthD)
    have "majority_label (slice y ?i (?i + window_size)) = Inr l"
      using r k by (auto dest: list_all2_nthD2)
    then have "l \<in> set (slice y ?i (?i + window_size))"
      using majority_label_mode by blast
    moreover have "?i \<in> set (kept_starts y (length X) window_size stride)"
      using kl by simp
    then have "0 \<notin> set (slice y ?i (?i + window_size))"
      by (simp add: kept_starts_def)
    ultimately show ?thesis by auto
  qed
  then have "0 \<notin> set labels" by blast
  then show ?thesis using w len by blast
qed

text \<open>
  Whenever the stride divides \<open>N - W\<close>, the window that ends with the recording is a
  candidate of the specification that the loop does not visit.
\<close>

lemma py_range_member:
  "0 < step \<Longrightarrow> i \<le> x \<Longrightarrow> x < stop \<Longrightarrow> step dvd (x - i) \<Longrightarrow> x \<in> set (py_range i stop step)"
proof (induction i stop step rule: py_range.induct)
  case (1 i stop step)
  have lt: "i < stop" using "1.prems" by simp
  show ?case
  proof (cases "x = i")
    case True
    then show ?thesis using lt "1.prems"(1) by (subst py_range.simps) simp
  next
    case False
    then have pos: "0 < x - i" using "1.prems"(2) by simp
    from "1.prems"(4) obtain k where k: "x - i = step * k" by (auto simp: dvd_def)
    have "0 < k" using pos k "1.prems"(1) by (simp add: zero_less_mult_iff)
    then have "step \<le> step * k" using "1.prems"(1) by simp
    then have ge: "i + step \<le> x" using k by simp
    have "x - (i + step) = step * (k - 1)" using k by (simp add: algebra_simps)
    then have dv: "step dvd (x - (i + step))" by simp
    have "x \<in> set (py_range (i + step) stop step)"
      using "1.IH" "1.prems"(1,3) lt ge dv by simp
    then show ?thesis using lt "1.prems"(1) by (subst py_range.simps) simp
  qed
qed

lemma last_full_window_not_visited:
  assumes "0 < s" "w \<le> n" "s dvd (n - w)"
  shows "n - w \<in> set (claimed_window_starts n w s) \<and> n - w \<notin> set (window_starts n w s)"
proof -
  have "int s dvd (int (n - w) - 0)" using assms(3) by simp
  then have "int (n - w) \<in> set (py_range 0 (int n - int w + 1) (int s))"
    using assms(1,2) by (intro py_range_member) simp_all
  then have "nat (int (n - w)) \<in> set (claimed_window_starts n w s)"
    unfolding claimed_window_starts_def by (metis imageI set_map)
  then have a: "n - w \<in> set (claimed_window_starts n w s)" by simp
  have "n - w \<notin> set (window_starts n w s)"
  proof
    assume "n - w \<in> set (window_starts n w s)"
    then have "n - w + w < n" by (rule window_starts_bound)
    then show False using assms(2) by simp
  qed
  with a show ?thesis by simp
qed

text \<open>
  C4. A candidate window is kept if and only if none of its labels is 0, and every
  discarded candidate holds a 0. The candidates are the windows that fit
  (\<open>start + W \<le> total_rows\<close>); the loop never visits the one that ends with the
  recording, so that window is discarded although it holds no 0. A recording of 60 rows, all
  labelled 1, has the candidate start 0 with the default window, which the specification
  keeps, and \<^verbatim>\<open>create_windows\<close> returns nothing. On seven rows with the labels 1, 1, 0,
  2, 2, 2, 1, window 2 and stride 1, the specification keeps the starts 0, 3, 4 and 5, and
  \<^verbatim>\<open>create_windows\<close> returns the windows of 0, 3 and 4 only: the window of start 5, with
  the labels 2 and 1, is discarded.
\<close>

theorem create_windows_discards_sentinel_free_window:
  "claimed_kept_starts (replicate 60 1) 60 60 20 = [0] \<and>
   create_windows_default (replicate 60 (0::nat)) (replicate 60 1) = Inr ([], []) \<and>
   claimed_kept_starts [1, 1, 0, 2, 2, 2, 1] 7 2 1 = [0, 3, 4, 5] \<and>
   slice [1, 1, 0, 2, 2, 2, 1 :: int] 5 (5 + 2) = [2, 1] \<and>
   create_windows [10, 11, 12, 13, 14, 15, 16 :: nat] [1, 1, 0, 2, 2, 2, 1] 2 1 =
     Inr ([[10, 11], [13, 14], [14, 15]], [1, 2, 2])"
  by code_simp

text \<open>
  C5. When \<^verbatim>\<open>create_windows\<close> returns, the label of each emitted window is a value
  of the window's label slice that occurs there at least as often as every other value, and
  it is the smallest of the values that occur as often.
\<close>

theorem create_windows_label_is_smallest_mode:
  assumes "create_windows X y window_size stride = Inr (windows, labels)"
  shows "list_all2 (\<lambda>i l. smallest_mode (slice y i (i + window_size)) l)
           (kept_starts y (length X) window_size stride) labels"
proof -
  have "list_all2 (\<lambda>i m. majority_label (slice y i (i + window_size)) = Inr m)
          (kept_starts y (length X) window_size stride) labels"
    using create_windows_Inr [OF assms] by simp
  moreover have "smallest_mode ys m" if "majority_label ys = Inr m" for ys m
    using majority_label_mode [OF that] by (simp add: smallest_mode_def)
  ultimately show ?thesis by (rule list_all2_mono)
qed

theorem create_windows_label_is_smallest_mode_witness:
  "create_windows [0 ..< 7] [2, 1, 2, 1, 3, 3, 3] 4 2 = Inr ([[0, 1, 2, 3], [2, 3, 4, 5]], [1, 3]) \<and>
   list_all2 (\<lambda>i l. smallest_mode (slice [2, 1, 2, 1, 3, 3, 3] i (i + 4)) l)
     (kept_starts [2, 1, 2, 1, 3, 3, 3] (length [0 ..< 7]) 4 2) [1, 3]"
proof -
  have h: "create_windows [0 ..< 7] [2, 1, 2, 1, 3, 3, 3] 4 2 = Inr ([[0, 1, 2, 3], [2, 3, 4, 5]], [1, 3])"
    by code_simp
  from h create_windows_label_is_smallest_mode [OF h] show ?thesis by (rule conjI)
qed

subsection \<open>Questionnaire rows\<close>

lemma dict_set_fresh: "k \<notin> fst ` set d \<Longrightarrow> dict_set d k v = d @ [(k, v)]"
  by (induction d) auto

lemma foldl_dict_set_distinct:
  "distinct (map fst (d @ items)) \<Longrightarrow> foldl (\<lambda>d (k, v). dict_set d k v) d items = d @ items"
proof (induction items arbitrary: d)
  case Nil
  then show ?case by simp
next
  case (Cons kv items)
  obtain k v where kv: "kv = (k, v)" by (cases kv)
  have fresh: "k \<notin> fst ` set d" using Cons.prems kv by auto
  have "distinct (map fst ((d @ [(k, v)]) @ items))" using Cons.prems kv by simp
  from Cons.IH [OF this] show ?case using kv fresh by (simp add: dict_set_fresh)
qed

lemma py_dict_distinct: "distinct (map fst items) \<Longrightarrow> py_dict items = items"
  using foldl_dict_set_distinct [of "[]" items] by (simp add: py_dict_def)

lemma distinct_PANAS_ITEMS: "distinct PANAS_ITEMS"
  by (simp add: PANAS_ITEMS_def)

lemma length_PANAS_ITEMS: "length PANAS_ITEMS = 26"
  by (simp add: PANAS_ITEMS_def)

lemma py_dict_zip_PANAS: "py_dict (zip PANAS_ITEMS scores) = zip PANAS_ITEMS scores"
proof (rule py_dict_distinct)
  have "map fst (zip PANAS_ITEMS scores) = take (min (length PANAS_ITEMS) (length scores)) PANAS_ITEMS"
    by (rule map_fst_zip_take)
  then show "distinct (map fst (zip PANAS_ITEMS scores))"
    using distinct_PANAS_ITEMS by simp
qed

lemma zip_take_PANAS: "zip PANAS_ITEMS (take 26 scores) = zip PANAS_ITEMS scores"
proof -
  have "zip PANAS_ITEMS scores = take (length PANAS_ITEMS) (zip PANAS_ITEMS scores)"
    by simp
  also have "\<dots> = zip (take (length PANAS_ITEMS) PANAS_ITEMS) (take (length PANAS_ITEMS) scores)"
    by (rule take_zip)
  finally show ?thesis by (simp add: length_PANAS_ITEMS)
qed

lemma scores_loop_filter:
  assumes "\<forall>r \<in> set rows. marker_row r"
  shows "scores_loop rows (cs, printed) =
         (cs @ map (\<lambda>r. zip PANAS_ITEMS (projr (parse_scores (tl r)))) (filter row_accepted rows),
          printed @ map (\<lambda>r. projl (parse_scores (tl r))) (filter row_failed rows))"
  using assms
proof (induction rows arbitrary: cs printed)
  case Nil
  then show ?case by simp
next
  case (Cons row rows)
  have m: "marker_row row" and rest: "\<forall>r \<in> set rows. marker_row r" using Cons.prems by auto
  show ?case
  proof (cases "parse_scores (tl row)")
    case (Inl e)
    then have "row_failed row" "\<not> row_accepted row"
      using m by (simp_all add: row_failed_def row_accepted_def)
    then show ?thesis using Inl Cons.IH [OF rest] by simp
  next
    case (Inr scores)
    then have nf: "\<not> row_failed row" by (simp add: row_failed_def)
    show ?thesis
    proof (cases "length scores < length PANAS_ITEMS")
      case True
      then have "\<not> row_accepted row" using Inr by (simp add: row_accepted_def)
      then show ?thesis using True Inr nf Cons.IH [OF rest] by simp
    next
      case False
      then have "row_accepted row" using Inr m by (simp add: row_accepted_def)
      then show ?thesis using False Inr nf Cons.IH [OF rest] by (simp add: py_dict_zip_PANAS)
    qed
  qed
qed

lemma extract_panas_scores_filter:
  "extract_panas_scores reader =
     (map (\<lambda>r. zip PANAS_ITEMS (take 26 (projr (parse_scores (tl r))))) (filter row_accepted reader),
      map (\<lambda>r. projl (parse_scores (tl r))) (filter row_failed reader))"
proof -
  have a: "filter row_accepted (filter marker_row reader) = filter row_accepted reader"
    by (auto simp: row_accepted_def intro: filter_cong)
  have f: "filter row_failed (filter marker_row reader) = filter row_failed reader"
    by (auto simp: row_failed_def intro: filter_cong)
  have "\<forall>r \<in> set (filter marker_row reader). marker_row r" by simp
  from scores_loop_filter [OF this, of "[]" "[]"]
  have "scores_loop (filter marker_row reader) ([], []) =
         (map (\<lambda>r. zip PANAS_ITEMS (projr (parse_scores (tl r)))) (filter row_accepted reader),
          map (\<lambda>r. projl (parse_scores (tl r))) (filter row_failed reader))"
    unfolding a f by simp
  then show ?thesis
    by (simp add: extract_panas_scores_def zip_take_PANAS)
qed

text \<open>
  C7. The dictionaries returned by \<^verbatim>\<open>extract_panas_scores\<close> are those of the rows whose
  first field starts with the marker and whose comprehension yields at least 26 scores, in
  file order; each pairs the adjectives with the first 26 scores of its row, in order. A
  marker row whose parsing raises contributes no dictionary and one printed message; the
  function returns in every case.
\<close>

theorem extract_panas_scores_rows:
  "extract_panas_scores reader =
     (map (\<lambda>r. zip PANAS_ITEMS (take 26 (projr (parse_scores (tl r))))) (filter row_accepted reader),
      map (\<lambda>r. projl (parse_scores (tl r))) (filter row_failed reader))"
  by (rule extract_panas_scores_filter)


subsection \<open>Numeric fields\<close>

lemma strip_decompose:
  assumes "t = rev (dropWhile P (rev (dropWhile P s)))"
  shows "\<exists>a b. s = a @ t @ b \<and> (\<forall>c \<in> set a. P c) \<and> (\<forall>c \<in> set b. P c)"
proof -
  let ?u = "dropWhile P s"
  have s: "s = takeWhile P s @ ?u" by simp
  have "rev (rev ?u) = rev (takeWhile P (rev ?u) @ dropWhile P (rev ?u))"
    by (simp only: takeWhile_dropWhile_id)
  then have "?u = rev (dropWhile P (rev ?u)) @ rev (takeWhile P (rev ?u))"
    by (simp only: rev_rev_ident rev_append)
  then have u: "?u = t @ rev (takeWhile P (rev ?u))" using assms by simp
  have "\<forall>c \<in> set (takeWhile P s). P c" by (auto dest: set_takeWhileD)
  moreover have "\<forall>c \<in> set (rev (takeWhile P (rev ?u))). P c" by (auto dest: set_takeWhileD)
  moreover have "s = takeWhile P s @ t @ rev (takeWhile P (rev ?u))" using s u by metis
  ultimately show ?thesis by blast
qed

lemma strip_exact:
  assumes "s = a @ t @ b" "\<forall>c \<in> set a. Q c" "\<forall>c \<in> set b. Q c"
    and "t \<noteq> []" "\<not> Q (hd t)" "\<not> Q (last t)"
  shows "rev (dropWhile Q (rev (dropWhile Q s))) = t"
proof -
  have "dropWhile Q s = dropWhile Q (t @ b)"
    using assms(1,2) by (simp add: dropWhile_append2)
  also have "\<dots> = t @ b"
    using assms(4,5) by (cases t) simp_all
  finally have d: "dropWhile Q s = t @ b" .
  have "dropWhile Q (rev b @ rev t) = dropWhile Q (rev t)"
    using assms(3) by (intro dropWhile_append2) simp
  then have "dropWhile Q (rev (t @ b)) = dropWhile Q (rev t)"
    by simp
  also have "\<dots> = rev t"
    using assms(4,6) by (cases "rev t") (auto simp: last_rev [symmetric] hd_rev)
  finally show ?thesis using d by simp
qed

lemma digit_groups_shape:
  "digit_groups body \<Longrightarrow>
     body \<noteq> [] \<and> ascii_digit (hd body) \<and> ascii_digit (last body) \<and>
     (\<forall>c \<in> set body. ascii_digit c \<or> c = CHR ''_'')"
  by (induction body rule: digit_groups.induct) (auto split: if_splits)

lemma digit_groups_digits:
  "ds \<noteq> [] \<Longrightarrow> list_all ascii_digit ds \<Longrightarrow> digit_groups ds"
proof (induction ds rule: digit_groups.induct)
  case (3 c d r)
  then have "d \<noteq> CHR ''_''" by (auto simp: ascii_digit_def)
  with 3 show ?case by simp
qed simp_all

lemma ascii_digit_not_space: "ascii_digit c \<Longrightarrow> \<not> py_isspace c"
  by (auto simp: ascii_digit_def py_isspace_def)

lemma int_space_py_isspace: "int_space c \<Longrightarrow> py_isspace c"
  by (auto simp: int_space_def py_isspace_def)

lemma sign_chars:
  "\<not> py_isspace (CHR ''-'')" "\<not> py_isspace (CHR ''+'')"
  "\<not> py_isdigit_char (CHR ''-'')" "\<not> py_isdigit_char (CHR ''+'')" "\<not> py_isdigit_char (CHR ''_'')"
  by (simp_all add: py_isspace_def py_isdigit_char_def ascii_digit_def)

lemma py_int_counted_field:
  assumes d: "isdigit (strip val)" and i: "py_int val = Inr n"
  shows "decimal_field val \<and> n = int (decimal_value (strip val)) \<and>
         length (strip val) \<le> int_max_str_digits \<and> \<not> list_ex strip_only_space val"
proof -
  define t where "t = rev (dropWhile int_space (rev (dropWhile int_space val)))"
  define body where "body = (if t \<noteq> [] \<and> (hd t = CHR ''-'' \<or> hd t = CHR ''+'') then tl t else t)"
  define ds where "ds = filter (\<lambda>c. c \<noteq> CHR ''_'') body"
  have unf: "py_int val = (if \<not> digit_groups body then Inl ValueError
         else if int_max_str_digits < length ds then Inl ValueError
         else Inr (if t \<noteq> [] \<and> hd t = CHR ''-'' then - int (decimal_value ds) else int (decimal_value ds)))"
    by (simp add: py_int_def Let_def t_def body_def ds_def)
  have g: "digit_groups body" using i unf by (auto split: if_splits)
  note sh = digit_groups_shape [OF g]
  have tne: "t \<noteq> []" using sh by (auto simp: body_def split: if_splits)
  have hd_t: "\<not> py_isspace (hd t)"
  proof (cases "hd t = CHR ''-'' \<or> hd t = CHR ''+''")
    case True
    then show ?thesis using sign_chars by auto
  next
    case False
    then have "body = t" by (simp add: body_def)
    then show ?thesis using sh ascii_digit_not_space by auto
  qed
  have "last t = last body"
    using sh tne by (auto simp: body_def last_tl)
  then have last_t: "\<not> py_isspace (last t)" using sh ascii_digit_not_space by auto
  from strip_decompose [OF t_def] obtain a b where
    val: "val = a @ t @ b" and a: "\<forall>c \<in> set a. int_space c" and b: "\<forall>c \<in> set b. int_space c"
    by blast
  have st: "strip val = t"
    unfolding strip_def
    by (rule strip_exact [OF val _ _ tne hd_t last_t]) (use a b int_space_py_isspace in auto)
  have all: "\<forall>c \<in> set t. py_isdigit_char c" using d st by (simp add: isdigit_def list_all_iff)
  then have "py_isdigit_char (hd t)" using tne by simp
  then have nosign: "hd t \<noteq> CHR ''-''" "hd t \<noteq> CHR ''+''" using sign_chars by auto
  then have bt: "body = t" by (simp add: body_def)
  have nound: "\<forall>c \<in> set t. c \<noteq> CHR ''_''" using all sign_chars by auto
  then have dt: "ds = t" unfolding ds_def bt by (simp add: filter_id_conv)
  have "\<forall>c \<in> set t. ascii_digit c" using sh bt nound by auto
  then have "decimal_field val" using st tne by (simp add: decimal_field_def list_all_iff)
  moreover have "n = int (decimal_value (strip val))"
    using i unf g nosign dt st by (auto split: if_splits)
  moreover have "length (strip val) \<le> int_max_str_digits"
    using i unf g dt st by (auto split: if_splits)
  moreover have "\<not> strip_only_space c" if "c \<in> set val" for c
  proof -
    from that val have "c \<in> set a \<or> c \<in> set t \<or> c \<in> set b" by auto
    then have "int_space c \<or> ascii_digit c"
      using a b \<open>\<forall>c \<in> set t. ascii_digit c\<close> by blast
    then show ?thesis by (auto simp: int_space_def ascii_digit_def strip_only_space_def)
  qed
  then have "\<not> list_ex strip_only_space val" by (auto simp: list_ex_iff)
  ultimately show ?thesis by simp
qed

lemma decimal_field_counted: "decimal_field val \<Longrightarrow> isdigit (strip val)"
  by (auto simp: decimal_field_def isdigit_def py_isdigit_char_def list_all_iff)

lemma parse_scores_nonneg:
  "parse_scores vals = Inr scores \<Longrightarrow> \<forall>n \<in> set scores. 0 \<le> n"
proof (induction vals arbitrary: scores)
  case Nil
  then show ?case by simp
next
  case (Cons val rest)
  show ?case
  proof (cases "isdigit (strip val)")
    case True
    with Cons.prems obtain n ns where n: "py_int val = Inr n" and ns: "parse_scores rest = Inr ns"
      and sc: "scores = n # ns"
      by (auto split: sum.splits)
    have "0 \<le> n" using py_int_counted_field [OF True n] by simp
    then show ?thesis using Cons.IH [OF ns] sc by simp
  next
    case False
    then show ?thesis using Cons by simp
  qed
qed

lemma parse_scores_accepted_fields:
  assumes "\<forall>val \<in> set vals. isdigit (strip val) \<longrightarrow> \<not> isl (py_int val)"
  shows "parse_scores vals = Inr (claimed_scores vals)"
  using assms
proof (induction vals)
  case Nil
  then show ?case by (simp add: claimed_scores_def)
next
  case (Cons val rest)
  have rest: "parse_scores rest = Inr (claimed_scores rest)" using Cons by simp
  show ?case
  proof (cases "isdigit (strip val)")
    case True
    then have "\<not> isl (py_int val)" using Cons.prems by simp
    then obtain n where n: "py_int val = Inr n" by (cases "py_int val") auto
    note py_int_counted_field [OF True n]
    then show ?thesis using True n rest by (simp add: claimed_scores_def)
  next
    case False
    then have "\<not> decimal_field val" using decimal_field_counted by blast
    then show ?thesis using False rest by (simp add: claimed_scores_def)
  qed
qed

lemma replicate_numeral_Cons: "replicate (numeral k) x = x # replicate (pred_numeral k) x"
  by (simp add: numeral_eq_Suc)

lemmas text_eval =
  strip_def isdigit_def startswith_def py_isspace_def ascii_digit_def py_isdigit_char_def
  py_int_def int_space_def decimal_value_def int_max_str_digits_def

lemmas panas_eval =
  extract_panas_scores_def marker_row_def PANAS_MARKER_def claimed_panas_def claimed_scores_def
  decimal_field_def py_dict_zip_PANAS length_PANAS_ITEMS replicate_numeral_Cons text_eval

text \<open>
  An example with every kind of row: a marker row with fields that are dropped and 27
  numeric fields, a row of another kind, an empty row, a marker row that is too short, and a
  marker row with a superscript digit, whose parsing raises.
\<close>

lemma extract_panas_scores_example:
  "extract_panas_scores
     [[''# PANAS'', ''x'', ''-3'', ''2.5''] @ replicate 27 '' 3 '', [''# ORDER'', ''1''], [],
      [''# PANAS'', ''1'', ''2''], ''# PANAS'' # [CHR 0xB2] # replicate 26 ''1''] =
   ([zip PANAS_ITEMS (replicate 26 3)], [ValueError])"
  by (simp add: panas_eval) (simp add: PANAS_ITEMS_def)

text \<open>
  Every dictionary returned has the 26 adjectives as keys, in order, and values that are
  not negative; and when \<^verbatim>\<open>int\<close> accepts every counted field of every marker row, the
  result is the one the specification describes, with nothing printed.
\<close>

lemma extract_panas_scores_all_accepted:
  "(\<forall>d \<in> set (fst (extract_panas_scores reader)).
      map fst d = PANAS_ITEMS \<and> (\<forall>v \<in> set (map snd d). 0 \<le> v)) \<and>
   ((\<forall>r \<in> set reader. marker_row r \<longrightarrow>
       (\<forall>val \<in> set (tl r). isdigit (strip val) \<longrightarrow> \<not> isl (py_int val))) \<longrightarrow>
    extract_panas_scores reader = (claimed_panas reader, []))"
proof (rule conjI, rule ballI, rule_tac [2] impI)
  fix d assume "d \<in> set (fst (extract_panas_scores reader))"
  then obtain r where r: "row_accepted r"
    and d: "d = zip PANAS_ITEMS (take 26 (projr (parse_scores (tl r))))"
    by (auto simp: extract_panas_scores_filter)
  from r obtain scores where s: "parse_scores (tl r) = Inr scores" and len: "26 \<le> length scores"
    by (auto simp: row_accepted_def length_PANAS_ITEMS split: sum.splits)
  have d': "d = zip PANAS_ITEMS (take 26 scores)" using d s by simp
  have l: "length (take 26 scores) = length PANAS_ITEMS" using len by (simp add: length_PANAS_ITEMS)
  have k: "map fst d = PANAS_ITEMS" using d' l by simp
  have "map snd d = take 26 scores" using d' l by simp
  then have "set (map snd d) \<subseteq> set scores" by (simp add: set_take_subset)
  then have "\<forall>v \<in> set (map snd d). 0 \<le> v" using parse_scores_nonneg [OF s] by blast
  with k show "map fst d = PANAS_ITEMS \<and> (\<forall>v \<in> set (map snd d). 0 \<le> v)" by simp
next
  assume H: "\<forall>r \<in> set reader. marker_row r \<longrightarrow>
       (\<forall>val \<in> set (tl r). isdigit (strip val) \<longrightarrow> \<not> isl (py_int val))"
  have p: "parse_scores (tl r) = Inr (claimed_scores (tl r))" if "r \<in> set reader" "marker_row r" for r
    using H that by (intro parse_scores_accepted_fields) blast
  have f: "filter row_failed reader = []"
    using p by (auto simp: filter_empty_conv row_failed_def)
  have a: "filter row_accepted reader =
           filter (\<lambda>r. marker_row r \<and> length PANAS_ITEMS \<le> length (claimed_scores (tl r))) reader"
    using p by (intro filter_cong) (auto simp: row_accepted_def)
  have m: "map (\<lambda>r. zip PANAS_ITEMS (take 26 (projr (parse_scores (tl r))))) (filter row_accepted reader)
         = map (\<lambda>r. zip PANAS_ITEMS (claimed_scores (tl r))) (filter row_accepted reader)"
    using p by (intro map_cong) (auto simp: row_accepted_def zip_take_PANAS)
  have "extract_panas_scores reader =
        (map (\<lambda>r. zip PANAS_ITEMS (claimed_scores (tl r))) (filter row_accepted reader), [])"
    by (simp only: extract_panas_scores_filter f m list.map)
  also have "\<dots> = (claimed_panas reader, [])"
    by (simp only: a claimed_panas_def)
  finally show "extract_panas_scores reader = (claimed_panas reader, [])" .
qed

text \<open>
  Which counted fields \<^verbatim>\<open>int\<close> rejects, and what a rejected field does to its row.
\<close>

lemma py_isspace_split: "py_isspace c \<longleftrightarrow> int_space c \<or> strip_only_space c"
  by (auto simp: py_isspace_def int_space_def strip_only_space_def)

lemma py_int_accepts:
  assumes d: "isdigit (strip val)" and r: "\<not> int_rejects val"
  shows "py_int val = Inr (int (decimal_value (strip val)))"
proof -
  have digits: "list_all ascii_digit (strip val)"
    and len: "length (strip val) \<le> int_max_str_digits"
    and nosep: "\<forall>c \<in> set val. \<not> strip_only_space c"
    using r by (auto simp: int_rejects_def list_ex_iff)
  have same: "\<forall>c \<in> set val. int_space c = py_isspace c"
    using nosep by (simp add: py_isspace_split)
  have d1: "dropWhile int_space val = dropWhile py_isspace val"
    using same by (intro dropWhile_cong) simp_all
  have "\<forall>c \<in> set (rev (dropWhile py_isspace val)). int_space c = py_isspace c"
    using same by (auto dest: set_dropWhileD)
  then have d2: "dropWhile int_space (rev (dropWhile py_isspace val)) =
                 dropWhile py_isspace (rev (dropWhile py_isspace val))"
    by (intro dropWhile_cong) simp_all
  have t: "rev (dropWhile int_space (rev (dropWhile int_space val))) = strip val"
    by (simp only: d1 d2 strip_def)
  have ne: "strip val \<noteq> []" using d by (simp add: isdigit_def)
  have all: "\<forall>c \<in> set (strip val). ascii_digit c" using digits by (simp add: list_all_iff)
  then have "ascii_digit (hd (strip val))" using ne by simp
  then have nosign: "hd (strip val) \<noteq> CHR ''-''" "hd (strip val) \<noteq> CHR ''+''"
    by (auto simp: ascii_digit_def)
  have "\<forall>c \<in> set (strip val). c \<noteq> CHR ''_''" using all by (auto simp: ascii_digit_def)
  then have f: "filter (\<lambda>c. c \<noteq> CHR ''_'') (strip val) = strip val" by (simp add: filter_id_conv)
  have g: "digit_groups (strip val)" using ne digits by (rule digit_groups_digits)
  show ?thesis
    unfolding py_int_def t Let_def using ne nosign f g len by simp
qed

lemma py_int_rejects_iff:
  assumes "isdigit (strip val)"
  shows "isl (py_int val) \<longleftrightarrow> int_rejects val"
proof
  assume "isl (py_int val)"
  then show "int_rejects val" using py_int_accepts [OF assms] by (cases "int_rejects val") auto
next
  assume r: "int_rejects val"
  show "isl (py_int val)"
  proof (cases "py_int val")
    case (Inl e)
    then show ?thesis by simp
  next
    case (Inr n)
    from py_int_counted_field [OF assms Inr] r show ?thesis
      by (simp add: int_rejects_def decimal_field_def)
  qed
qed

lemma py_int_error: "py_int val = Inl e \<Longrightarrow> e = ValueError"
  by (simp add: py_int_def Let_def split: if_splits)

lemma parse_scores_error: "parse_scores vals = Inl e \<Longrightarrow> e = ValueError"
proof (induction vals)
  case Nil
  then show ?case by simp
next
  case (Cons val rest)
  then show ?case by (auto split: if_splits sum.splits dest: py_int_error)
qed

lemma parse_scores_rejected:
  "list_ex (\<lambda>val. isdigit (strip val) \<and> int_rejects val) vals \<Longrightarrow> parse_scores vals = Inl ValueError"
proof (induction vals)
  case Nil
  then show ?case by simp
next
  case (Cons val rest)
  show ?case
  proof (cases "isdigit (strip val)")
    case False
    then show ?thesis using Cons by simp
  next
    case True
    show ?thesis
    proof (cases "py_int val")
      case (Inl e)
      then show ?thesis using True py_int_error by auto
    next
      case (Inr n)
      then have "\<not> int_rejects val" using py_int_rejects_iff [OF True] by auto
      then have "parse_scores rest = Inl ValueError" using Cons by simp
      then show ?thesis using True Inr by simp
    qed
  qed
qed

lemma parse_scores_not_rejected:
  assumes "\<not> list_ex (\<lambda>val. isdigit (strip val) \<and> int_rejects val) vals"
  shows "parse_scores vals = Inr (claimed_scores vals)"
proof (rule parse_scores_accepted_fields)
  show "\<forall>val \<in> set vals. isdigit (strip val) \<longrightarrow> \<not> isl (py_int val)"
    using assms py_int_rejects_iff by (auto simp: list_ex_iff)
qed

lemma extract_panas_scores_by_fields:
  "extract_panas_scores reader =
     (map (\<lambda>r. zip PANAS_ITEMS (claimed_scores (tl r)))
        (filter (\<lambda>r. marker_row r \<and> \<not> row_rejected r \<and>
                     length PANAS_ITEMS \<le> length (claimed_scores (tl r))) reader),
      map (\<lambda>r. ValueError) (filter (\<lambda>r. marker_row r \<and> row_rejected r) reader))"
proof -
  have rej: "parse_scores (tl r) = Inl ValueError" if "row_rejected r" for r
    using that unfolding row_rejected_def by (rule parse_scores_rejected)
  have acc: "parse_scores (tl r) = Inr (claimed_scores (tl r))" if "\<not> row_rejected r" for r
    using that unfolding row_rejected_def by (rule parse_scores_not_rejected)
  have fa: "row_accepted r \<longleftrightarrow>
        marker_row r \<and> \<not> row_rejected r \<and> length PANAS_ITEMS \<le> length (claimed_scores (tl r))" for r
    using rej [of r] acc [of r] by (cases "row_rejected r") (simp_all add: row_accepted_def)
  have ff: "row_failed r \<longleftrightarrow> marker_row r \<and> row_rejected r" for r
    using rej [of r] acc [of r] by (cases "row_rejected r") (simp_all add: row_failed_def)
  have a: "filter row_accepted reader =
           filter (\<lambda>r. marker_row r \<and> \<not> row_rejected r \<and>
                     length PANAS_ITEMS \<le> length (claimed_scores (tl r))) reader"
    using fa by (intro filter_cong) simp_all
  have f: "filter row_failed reader = filter (\<lambda>r. marker_row r \<and> row_rejected r) reader"
    using ff by (intro filter_cong) simp_all
  have m1: "map (\<lambda>r. zip PANAS_ITEMS (take 26 (projr (parse_scores (tl r))))) (filter row_accepted reader)
          = map (\<lambda>r. zip PANAS_ITEMS (claimed_scores (tl r))) (filter row_accepted reader)"
    using fa acc by (intro map_cong) (auto simp: zip_take_PANAS)
  have m2: "map (\<lambda>r. projl (parse_scores (tl r))) (filter row_failed reader)
          = map (\<lambda>r. ValueError) (filter row_failed reader)"
    using ff rej by (intro map_cong) auto
  have "extract_panas_scores reader =
        (map (\<lambda>r. zip PANAS_ITEMS (claimed_scores (tl r))) (filter row_accepted reader),
         map (\<lambda>r. ValueError) (filter row_failed reader))"
    by (simp only: extract_panas_scores_filter m1 m2)
  then show ?thesis by (simp only: a f)
qed

text \<open>
  A field of 4301 digits is counted and rejected, and its row is skipped with a message.
\<close>

lemma strip_replicate: "\<not> py_isspace c \<Longrightarrow> strip (replicate n c) = replicate n c"
  by (simp add: strip_def)

lemma long_field_rejected:
  "isdigit (strip (replicate 4301 (CHR ''1''))) \<and> int_rejects (replicate 4301 (CHR ''1''))"
proof -
  have s: "strip (replicate 4301 (CHR ''1'')) = replicate 4301 (CHR ''1'')"
    by (rule strip_replicate) (simp add: py_isspace_def)
  show ?thesis
    by (simp add: s isdigit_def int_rejects_def int_max_str_digits_def list_all_iff
        py_isdigit_char_def ascii_digit_def)
qed

lemma extract_panas_scores_long_field:
  "extract_panas_scores [''# PANAS'' # replicate 4301 (CHR ''1'') # replicate 26 ''1''] = ([], [ValueError])"
proof -
  have m: "marker_row (''# PANAS'' # replicate 4301 (CHR ''1'') # replicate 26 ''1'')"
    by (simp add: marker_row_def PANAS_MARKER_def startswith_def)
  have r: "row_rejected (''# PANAS'' # replicate 4301 (CHR ''1'') # replicate 26 ''1'')"
    using long_field_rejected by (simp add: row_rejected_def)
  show ?thesis
    by (simp only: extract_panas_scores_by_fields) (simp add: m r)
qed

text \<open>
  C10, as stated: a field that does not consist entirely of decimal digits is dropped, and
  never rejects its row. A field that is the superscript two passes \<^verbatim>\<open>isdigit\<close>, so it
  is not dropped; \<^verbatim>\<open>int\<close> rejects it, and the row, which has 26 decimal fields, gives no
  dictionary but a printed message.
\<close>

theorem extract_panas_scores_rejects_superscript_row:
  "extract_panas_scores [''# PANAS'' # [CHR 0xB2] # replicate 26 ''1''] = ([], [ValueError]) \<and>
   claimed_panas [''# PANAS'' # [CHR 0xB2] # replicate 26 ''1''] = [zip PANAS_ITEMS (replicate 26 1)]"
  by (simp add: panas_eval)

text \<open>
  C10, amended. Every dictionary returned maps the 26 adjectives, in order, to integers that
  are not negative. A field is counted when its stripped text passes \<^verbatim>\<open>isdigit\<close>;
  every other field is dropped before the pairing. \<^verbatim>\<open>int\<close> rejects a counted field
  exactly when its stripped text has a character that is not a decimal digit, or more than
  4300 digits, or the field holds one of the separators 28 to 31. For every file, a marker
  row with a rejected field gives no dictionary and one printed message; every other marker
  row counts exactly its fields of decimal digits and, with at least 26 of them, gives the
  dictionary of the first 26. When no counted field is rejected, the result is the one the
  specification describes.
\<close>

theorem extract_panas_scores_numeric_fields:
  "(\<forall>d \<in> set (fst (extract_panas_scores reader)).
      map fst d = PANAS_ITEMS \<and> (\<forall>v \<in> set (map snd d). 0 \<le> v)) \<and>
   ((\<forall>r \<in> set reader. marker_row r \<longrightarrow>
       (\<forall>val \<in> set (tl r). isdigit (strip val) \<longrightarrow> \<not> isl (py_int val))) \<longrightarrow>
    extract_panas_scores reader = (claimed_panas reader, [])) \<and>
   (\<forall>val. isdigit (strip val) \<longrightarrow> (isl (py_int val) \<longleftrightarrow> int_rejects val)) \<and>
   extract_panas_scores reader =
     (map (\<lambda>r. zip PANAS_ITEMS (claimed_scores (tl r)))
        (filter (\<lambda>r. marker_row r \<and> \<not> row_rejected r \<and>
                     length PANAS_ITEMS \<le> length (claimed_scores (tl r))) reader),
      map (\<lambda>r. ValueError) (filter (\<lambda>r. marker_row r \<and> row_rejected r) reader))"
proof -
  note a = extract_panas_scores_all_accepted [of reader]
  have i: "\<forall>val. isdigit (strip val) \<longrightarrow> (isl (py_int val) \<longleftrightarrow> int_rejects val)"
    using py_int_rejects_iff by blast
  note e = extract_panas_scores_by_fields [of reader]
  show ?thesis
  proof (intro conjI)
    show "\<forall>d \<in> set (fst (extract_panas_scores reader)).
      map fst d = PANAS_ITEMS \<and> (\<forall>v \<in> set (map snd d). 0 \<le> v)"
      using a by (rule conjunct1)
    show "(\<forall>r \<in> set reader. marker_row r \<longrightarrow>
       (\<forall>val \<in> set (tl r). isdigit (strip val) \<longrightarrow> \<not> isl (py_int val))) \<longrightarrow>
      extract_panas_scores reader = (claimed_panas reader, [])"
      using a by (rule conjunct2)
    show "\<forall>val. isdigit (strip val) \<longrightarrow> (isl (py_int val) \<longleftrightarrow> int_rejects val)"
      by (rule i)
    show "extract_panas_scores reader =
     (map (\<lambda>r. zip PANAS_ITEMS (claimed_scores (tl r)))
        (filter (\<lambda>r. marker_row r \<and> \<not> row_rejected r \<and>
                     length PANAS_ITEMS \<le> length (claimed_scores (tl r))) reader),
      map (\<lambda>r. ValueError) (filter (\<lambda>r. marker_row r \<and> row_rejected r) reader))"
      by (rule e)
  qed
qed

theorem extract_panas_scores_numeric_fields_witness:
  "extract_panas_scores
     [[''# PANAS'', ''x'', ''-3'', ''2.5'', '''', '' 4 ''] @ replicate 25 ''3'' @ [''5''],
      ''# PANAS'' # [CHR 0xB2] # replicate 26 ''1'',
      ''# PANAS'' # [CHR 0x1C, CHR ''7''] # replicate 26 ''1'',
      [''# ORDER'', ''1''], [''# PANAS'', ''1'', ''2'']] =
   ([zip PANAS_ITEMS (4 # replicate 25 3)], [ValueError, ValueError])"
proof -
  let ?w = "[[''# PANAS'', ''x'', ''-3'', ''2.5'', '''', '' 4 ''] @ replicate 25 ''3'' @ [''5''],
      ''# PANAS'' # [CHR 0xB2] # replicate 26 ''1'',
      ''# PANAS'' # [CHR 0x1C, CHR ''7''] # replicate 26 ''1'',
      [''# ORDER'', ''1''], [''# PANAS'', ''1'', ''2'']]"
  note e = extract_panas_scores_numeric_fields [of ?w, THEN conjunct2, THEN conjunct2, THEN conjunct2]
  have "(map (\<lambda>r. zip PANAS_ITEMS (claimed_scores (tl r)))
        (filter (\<lambda>r. marker_row r \<and> \<not> row_rejected r \<and>
                     length PANAS_ITEMS \<le> length (claimed_scores (tl r))) ?w),
      map (\<lambda>r. ValueError) (filter (\<lambda>r. marker_row r \<and> row_rejected r) ?w)) =
     ([zip PANAS_ITEMS (4 # replicate 25 3)], [ValueError, ValueError])"
    by (simp add: row_rejected_def int_rejects_def strip_only_space_def marker_row_def
        PANAS_MARKER_def claimed_scores_def decimal_field_def length_PANAS_ITEMS
        replicate_numeral_Cons text_eval)
      (simp add: PANAS_ITEMS_def)
  with e show ?thesis by (rule trans)
qed

subsection \<open>Regression targets\<close>

lemma length_TARGET_PANAS: "length TARGET_PANAS = 7"
  by (simp add: TARGET_PANAS_def)

lemma TARGET_subset_PANAS: "set TARGET_PANAS \<subseteq> set PANAS_ITEMS"
  by (simp add: TARGET_PANAS_def PANAS_ITEMS_def)

lemma lookup_all_present:
  assumes "set keys \<subseteq> fst ` set d"
  shows "lookup_all d keys = Inr (map (\<lambda>key. the (map_of d key)) keys)"
  using assms
proof (induction keys)
  case Nil
  then show ?case by simp
next
  case (Cons key keys)
  then have "key \<in> fst ` set d" by simp
  then obtain v where "map_of d key = Some v"
    by (metis domD dom_map_of_conv_image_fst)
  then show ?case using Cons by (simp add: getitem_def)
qed

lemma y_reg_loop_targets:
  assumes "\<forall>l \<in> set labels. 1 \<le> l"
    and "\<forall>d \<in> set panas. set TARGET_PANAS \<subseteq> fst ` set d"
  shows "y_reg_loop panas labels y_reg = Inr (y_reg @ map (claimed_target panas) labels)"
  using assms(1)
proof (induction labels arbitrary: y_reg)
  case Nil
  then show ?case by simp
next
  case (Cons l labels)
  have l: "1 \<le> l" and rest: "\<forall>l \<in> set labels. 1 \<le> l" using Cons.prems by auto
  show ?case
  proof (cases "int (length panas) \<le> l - 1")
    case True
    then show ?thesis
      using Cons.IH [OF rest] by (simp add: claimed_target_def length_TARGET_PANAS)
  next
    case False
    then have idx: "py_index panas (l - 1) = Inr (panas ! nat (l - 1))"
      using False l by (simp add: py_index_def)
    have "panas ! nat (l - 1) \<in> set panas" using False l by simp
    then have "set TARGET_PANAS \<subseteq> fst ` set (panas ! nat (l - 1))" using assms(2) by blast
    from lookup_all_present [OF this] show ?thesis
      using False idx Cons.IH [OF rest] by (simp add: claimed_target_def comp_def)
  qed
qed

lemma extract_panas_scores_keys:
  assumes "d \<in> set (fst (extract_panas_scores reader))"
  shows "map fst d = PANAS_ITEMS"
proof -
  from assms obtain r where r: "row_accepted r"
    and d: "d = zip PANAS_ITEMS (take 26 (projr (parse_scores (tl r))))"
    by (auto simp: extract_panas_scores_filter)
  from r obtain scores where s: "parse_scores (tl r) = Inr scores" and len: "26 \<le> length scores"
    by (auto simp: row_accepted_def length_PANAS_ITEMS split: sum.splits)
  have "length (take 26 scores) = length PANAS_ITEMS" using len by (simp add: length_PANAS_ITEMS)
  then show ?thesis using d s by simp
qed

lemma create_windows_labels_positive:
  assumes "create_windows X y w s = Inr (windows, labels)"
  shows "\<forall>l \<in> set labels. 1 \<le> l"
proof
  fix l assume "l \<in> set labels"
  then obtain k where k: "k < length labels" "labels ! k = l"
    by (auto simp: in_set_conv_nth)
  note r = create_windows_Inr [OF assms]
  let ?i = "kept_starts y (length X) w s ! k"
  have kl: "k < length (kept_starts y (length X) w s)"
    using r k by (auto dest: list_all2_lengthD)
  have m: "majority_label (slice y ?i (?i + w)) = Inr l"
    using r k by (auto dest: list_all2_nthD2)
  then have mem: "l \<in> set (slice y ?i (?i + w))"
    using majority_label_mode by blast
  from m obtain cs where "bincount (slice y ?i (?i + w)) = Inr cs"
    by (auto simp: majority_label_def split: sum.splits)
  then have "0 \<le> l" using bincount_Inr mem by blast
  moreover have "?i \<in> set (kept_starts y (length X) w s)" using kl by simp
  then have "0 \<notin> set (slice y ?i (?i + w))" by (simp add: kept_starts_def)
  then have "l \<noteq> 0" using mem by auto
  ultimately show "1 \<le> l" by simp
qed

text \<open>
  In a score set, the scores under the target adjectives stand at the positions 20, 23,
  22, 25, 3, 9 and 15.
\<close>

lemma target_positions:
  assumes "map fst d = PANAS_ITEMS"
  shows "map (\<lambda>key. the (map_of d key)) TARGET_PANAS = map (\<lambda>j. snd (d ! j)) [20, 23, 22, 25, 3, 9, 15]"
proof -
  have d: "d = zip PANAS_ITEMS (map snd d)"
    using assms by (metis zip_map_fst_snd)
  have len: "length PANAS_ITEMS = length (map snd d)"
    using assms by (metis length_map)
  have l26: "length d = 26" using len by (simp add: length_PANAS_ITEMS)
  have g: "map_of d (PANAS_ITEMS ! j) = Some (snd (d ! j))" if "j < 26" for j
  proof -
    have "map_of (zip PANAS_ITEMS (map snd d)) (PANAS_ITEMS ! j) = Some (map snd d ! j)"
      using len distinct_PANAS_ITEMS that l26 by (intro map_of_zip_nth) simp_all
    then show ?thesis using d that l26 by simp
  qed
  have k: "TARGET_PANAS = map (\<lambda>j. PANAS_ITEMS ! j) [20, 23, 22, 25, 3, 9, 15]"
    by (simp add: TARGET_PANAS_def PANAS_ITEMS_def)
  show ?thesis unfolding k by (simp add: g)
qed

text \<open>
  C6. For the labels of the windows that \<^verbatim>\<open>create_windows\<close> emits and the score sets
  that \<^verbatim>\<open>extract_panas_scores\<close> returns, the loop of \<^verbatim>\<open>load_wesad_dataset\<close> returns,
  and it assigns to a label \<open>l\<close> with \<open>l - 1\<close> at least the number of score sets the
  vector of seven zeros, and to every other label the scores of set \<open>l - 1\<close> under the
  seven target adjectives, in their order; every score set has these adjectives.
\<close>

theorem y_reg_fallback_and_lookup:
  assumes "create_windows X y window_size stride = Inr (win_x, win_y)"
    and "panas = fst (extract_panas_scores reader)"
  shows "y_reg_loop panas win_y [] = Inr (map (claimed_target panas) win_y) \<and>
         length TARGET_PANAS = 7 \<and>
         list_all (\<lambda>d. set TARGET_PANAS \<subseteq> fst ` set d) panas"
proof -
  have keys: "\<forall>d \<in> set panas. set TARGET_PANAS \<subseteq> fst ` set d"
  proof
    fix d assume "d \<in> set panas"
    then have "map fst d = PANAS_ITEMS" using assms(2) extract_panas_scores_keys by blast
    then have "fst ` set d = set PANAS_ITEMS" by (metis set_map)
    then show "set TARGET_PANAS \<subseteq> fst ` set d" using TARGET_subset_PANAS by simp
  qed
  have "\<forall>l \<in> set win_y. 1 \<le> l" using assms(1) by (rule create_windows_labels_positive)
  from y_reg_loop_targets [OF this keys, of "[]"] keys show ?thesis
    by (simp add: length_TARGET_PANAS list_all_iff)
qed

theorem y_reg_fallback_and_lookup_witness:
  "create_windows [0, 1, 2, 3, 4 :: nat] [1, 1, 2, 2, 2] 2 1 = Inr ([[0, 1], [1, 2], [2, 3]], [1, 1, 2]) \<and>
   y_reg_loop
     (fst (extract_panas_scores [[''# PANAS'', ''1'', ''2'', ''3'', ''4'', ''5'', ''1'', ''2'', ''3'', ''4'', ''5'',
        ''1'', ''2'', ''3'', ''4'', ''5'', ''1'', ''2'', ''3'', ''4'', ''5'', ''1'', ''2'', ''3'', ''4'', ''5'', ''1'']]))
     [1, 1, 2] [] =
   Inr [[1, 4, 3, 1, 4, 5, 1], [1, 4, 3, 1, 4, 5, 1], [0, 0, 0, 0, 0, 0, 0]]"
proof -
  let ?reader = "[[''# PANAS'', ''1'', ''2'', ''3'', ''4'', ''5'', ''1'', ''2'', ''3'', ''4'', ''5'',
        ''1'', ''2'', ''3'', ''4'', ''5'', ''1'', ''2'', ''3'', ''4'', ''5'', ''1'', ''2'', ''3'', ''4'', ''5'', ''1'']]"
  have h: "create_windows [0, 1, 2, 3, 4 :: nat] [1, 1, 2, 2, 2] 2 1 = Inr ([[0, 1], [1, 2], [2, 3]], [1, 1, 2])"
    by code_simp
  have p: "fst (extract_panas_scores ?reader) =
      [zip PANAS_ITEMS [1, 2, 3, 4, 5, 1, 2, 3, 4, 5, 1, 2, 3, 4, 5, 1, 2, 3, 4, 5, 1, 2, 3, 4, 5, 1]]"
    by (simp add: panas_eval)
  have c: "map (claimed_target (fst (extract_panas_scores ?reader))) [1, 1, 2] =
      [[1, 4, 3, 1, 4, 5, 1], [1, 4, 3, 1, 4, 5, 1], [0, 0, 0, 0, 0, 0, 0]]"
    unfolding p by (simp add: claimed_target_def TARGET_PANAS_def PANAS_ITEMS_def replicate_numeral_Cons)
  from y_reg_fallback_and_lookup [OF h refl, of ?reader]
  have "y_reg_loop (fst (extract_panas_scores ?reader)) [1, 1, 2] [] =
        Inr (map (claimed_target (fst (extract_panas_scores ?reader))) [1, 1, 2])"
    by (rule conjunct1)
  then have "y_reg_loop (fst (extract_panas_scores ?reader)) [1, 1, 2] [] =
        Inr [[1, 4, 3, 1, 4, 5, 1], [1, 4, 3, 1, 4, 5, 1], [0, 0, 0, 0, 0, 0, 0]]"
    by (simp only: c)
  with h show ?thesis by (rule conjI)
qed

lemma rescale_unit_interval:
  assumes "\<forall>row \<in> set y_reg. \<forall>v \<in> set row. 1 \<le> v \<and> v \<le> 5"
  shows "\<forall>row \<in> set (rescale_y_reg y_reg). \<forall>v \<in> set row. 0 \<le> v \<and> v \<le> 1"
  using assms by (auto simp: rescale_y_reg_def)

lemma one_window_labelled_6: "create_windows_default (replicate 61 (0::nat)) (replicate 61 6) = Inr ([replicate 60 0], [6])"
  by code_simp

lemma five_score_sets: "fst (extract_panas_scores (replicate 5 (''# PANAS'' # replicate 26 ''3''))) =
   replicate 5 (zip PANAS_ITEMS (replicate 26 3))"
  by (simp add: panas_eval)

text \<open>
  C3. Scores between 1 and 5 are rescaled into the unit interval (lemma
  \<open>rescale_unit_interval\<close>), but the fallback vector is not: for a subject with five score
  sets and a window whose majority label is 6 (a recording of 61 rows, all labelled 6), the
  assigned vector is seven zeros, and the rescaling cell turns each of them into \<open>- 1 / 4\<close>.
\<close>

theorem fallback_target_rescaled_negative:
  "subject_examples (replicate 61 (0::nat)) (replicate 61 6)
     (replicate 5 (''# PANAS'' # replicate 26 ''3'')) =
     Inr ([replicate 60 0], [6], [[0, 0, 0, 0, 0, 0, 0]]) \<and>
   rescale_y_reg [[0, 0, 0, 0, 0, 0, 0]] = [[- 1 / 4, - 1 / 4, - 1 / 4, - 1 / 4, - 1 / 4, - 1 / 4, - 1 / 4]]"
proof -
  have "y_reg_loop (replicate 5 (zip PANAS_ITEMS (replicate 26 3))) [6] [] = Inr [[0, 0, 0, 0, 0, 0, 0]]"
    by (simp add: TARGET_PANAS_def replicate_numeral_Cons)
  then have "subject_examples (replicate 61 (0::nat)) (replicate 61 6)
     (replicate 5 (''# PANAS'' # replicate 26 ''3'')) =
     Inr ([replicate 60 0], [6], [[0, 0, 0, 0, 0, 0, 0]])"
    by (simp add: subject_examples_def one_window_labelled_6 five_score_sets)
  moreover have "rescale_y_reg [[0, 0, 0, 0, 0, 0, 0]] =
      [[- 1 / 4, - 1 / 4, - 1 / 4, - 1 / 4, - 1 / 4, - 1 / 4, - 1 / 4]]"
    by (simp add: rescale_y_reg_def)
  ultimately show ?thesis by (rule conjI)
qed

subsection \<open>The row count in double precision\<close>

lemma bit_length_numeral [simp]:
  "bit_length (numeral k) = Suc (bit_length (numeral k div 2))"
  by (subst bit_length.simps) simp

lemma bit_length_0 [simp]: "bit_length 0 = 0"
  by (subst bit_length.simps) simp

lemma bit_length_1 [simp]: "bit_length (Suc 0) = 1"
  by (subst bit_length.simps) simp

lemma bit_length_bounds:
  "0 < p \<Longrightarrow> 2 ^ (bit_length p - 1) \<le> p \<and> p < 2 ^ bit_length p"
proof (induction p rule: bit_length.induct)
  case (1 n)
  show ?case
  proof (cases "n div 2 = 0")
    case True
    then have "n = 1" using "1.prems" by presburger
    then show ?thesis by simp
  next
    case False
    then have pos: "0 < n div 2" by simp
    have n: "n \<noteq> 0" using "1.prems" by simp
    from "1.IH" [OF n pos]
    have lo: "2 ^ (bit_length (n div 2) - 1) \<le> n div 2" and hi: "n div 2 < 2 ^ bit_length (n div 2)"
      by auto
    have bl: "bit_length n = Suc (bit_length (n div 2))"
      using n by (subst bit_length.simps) simp
    have b1: "0 < bit_length (n div 2)"
      using pos by (subst bit_length.simps) simp
    then have "(2::nat) ^ (bit_length n - 1) = 2 * 2 ^ (bit_length (n div 2) - 1)"
      using bl by (cases "bit_length (n div 2)") simp_all
    then have "2 ^ (bit_length n - 1) \<le> n" using lo by linarith
    moreover have "n < 2 ^ bit_length n" using hi bl by simp
    ultimately show ?thesis by simp
  qed
qed

lemma bit_length_le: "p < 2 ^ k \<Longrightarrow> bit_length p \<le> k"
proof (rule ccontr)
  assume p: "p < 2 ^ k" and "\<not> bit_length p \<le> k"
  then have k: "k \<le> bit_length p - 1" by simp
  then have "0 < p" using \<open>\<not> bit_length p \<le> k\<close> by (cases "p = 0") auto
  then have "2 ^ (bit_length p - 1) \<le> p" using bit_length_bounds by blast
  moreover have "(2::nat) ^ k \<le> 2 ^ (bit_length p - 1)" using k by (intro power_increasing) simp_all
  ultimately show False using p by linarith
qed

lemma bit_length_gt: "2 ^ k \<le> p \<Longrightarrow> k < bit_length p"
proof (rule ccontr)
  assume p: "2 ^ k \<le> p" and "\<not> k < bit_length p"
  then have k: "bit_length p \<le> k" by simp
  have "0 < p" using p by (cases "p = 0") auto
  then have "p < 2 ^ bit_length p" using bit_length_bounds by blast
  moreover have "(2::nat) ^ bit_length p \<le> 2 ^ k" using k by (intro power_increasing) simp_all
  ultimately show False using p by linarith
qed

lemma round_div_ge: "0 < b \<Longrightarrow> a div b \<le> round_div a b"
  by (simp add: round_div_def Let_def)

lemma round_div_upper: "0 < b \<Longrightarrow> 2 * (round_div a b * b) \<le> 2 * a + b"
proof -
  assume b: "0 < b"
  have a: "a = a div b * b + a mod b" by simp
  have m: "a mod b < b" using b by simp
  show ?thesis
  proof (cases "2 * (a mod b) < b")
    case True
    then have "round_div a b = a div b" by (simp add: round_div_def Let_def)
    then show ?thesis using a by (metis add_leD1 le_add1 mult_le_mono2 trans_le_add1)
  next
    case False
    then have "round_div a b \<le> a div b + 1" by (simp add: round_div_def Let_def)
    then have "round_div a b * b \<le> (a div b + 1) * b" by (rule mult_le_mono1)
    then have "round_div a b * b \<le> a div b * b + b" by (simp add: algebra_simps)
    moreover have "2 * (a div b * b) + 2 * (a mod b) = 2 * a" using a by (metis distrib_left)
    ultimately show ?thesis using False by linarith
  qed
qed

lemma round_div_below:
  assumes "0 < q" "2 * q < b" "a + q = g * b"
  shows "round_div a b = g"
proof -
  have g: "0 < g" using assms by (cases g) auto
  then obtain g' where g': "g = Suc g'" by (cases g) auto
  have a: "a = g' * b + (b - q)" using assms g' by (simp add: algebra_simps)
  have lt: "b - q < b" using assms by simp
  have d: "a div b = g'" using a lt by simp
  have m: "a mod b = b - q" using a lt by simp
  have "b < 2 * (a mod b)" using m assms by simp
  then show ?thesis using d g' by (simp add: round_div_def Let_def)
qed

lemma round53_exact: "p < 2 ^ 53 \<Longrightarrow> round53 p = p"
proof -
  assume "p < 2 ^ 53"
  then have "bit_length p \<le> 53" by (rule bit_length_le)
  then show ?thesis by (simp add: round53_def round_div_def)
qed

lemma scale_mantissa_value: "scale_mantissa = 6588122883467697"
  by (simp add: scale_mantissa_def round_div_def SAMPLING_RATE_TARGET_def SAMPLING_RATE_ORIG_def Let_def)

text \<open>
  For every length below \<open>2 ^ 53\<close>, the two roundings do not show: the computed row count is
  the exact quotient of the length by 175, that is of \<open>4 * n\<close> by 700, cut off.
\<close>

lemma new_len_floor:
  assumes n: "n < 2 ^ 53"
  shows "new_len n = n div 175"
proof -
  define P where "P = n * scale_mantissa"
  define s where "s = bit_length P - 53"
  define B where "B = (2::nat) ^ s"
  define R where "R = round_div P B"
  define X where "X = R * B"
  define q where "q = n div 175"
  define r where "r = n mod 175"
  have nqr: "n = 175 * q + r" and r: "r < 175"
    by (simp_all add: q_def r_def)
  have n': "n < 9007199254740992" using n by simp
  have P175: "175 * P + n = n * 1152921504606846976"
    unfolding P_def scale_mantissa_value by simp
  have "new_len n = round53 P div 2 ^ 60"
    by (simp only: new_len_def round53_exact [OF n] P_def)
  then have nl: "new_len n = X div 2 ^ 60"
    by (simp add: round53_def s_def B_def R_def X_def Let_def)
  have Bpos: "0 < B" by (simp add: B_def)
  have "P < 2 ^ 106"
  proof -
    have "175 * P < 175 * 2 ^ 106" using P175 n' by simp
    then show ?thesis by simp
  qed
  then have "bit_length P \<le> 106" by (rule bit_length_le)
  then have s_le: "s \<le> 60" by (simp add: s_def)
  have pow: "2 ^ (60 - s) * B = (2::nat) ^ 60"
    using s_le by (simp add: B_def power_add [symmetric])
  have up: "2 * X \<le> 2 * P + B"
    unfolding X_def R_def using Bpos by (rule round_div_upper)
  have upper: "X < (q + 1) * 1152921504606846976"
  proof (cases "s = 0")
    case True
    then have "B = 1" by (simp add: B_def)
    then have "X \<le> P" using up by simp
    moreover have "175 * P < 175 * ((q + 1) * 1152921504606846976)"
      using P175 nqr r by simp
    ultimately show ?thesis by simp
  next
    case False
    then have bl: "bit_length P = s + 53" by (simp add: s_def)
    then have "0 < P" by (cases "P = 0") auto
    then have "2 ^ (bit_length P - 1) \<le> P" using bit_length_bounds by blast
    moreover have "bit_length P - 1 = s + 52" using bl by simp
    ultimately have "2 ^ (s + 52) \<le> P" by simp
    then have "B * 4503599627370496 \<le> P" by (simp add: B_def power_add)
    then have "9007199254740992 * X \<le> 9007199254740993 * P" using up by simp
    then have "175 * (9007199254740992 * X) \<le> 9007199254740993 * (175 * P)" by simp
    also have "\<dots> < 9007199254740993 * (n * 1152921504606846976)"
      using P175 \<open>0 < P\<close> by simp
    also have "\<dots> \<le> 175 * (9007199254740992 * ((q + 1) * 1152921504606846976))"
      using nqr r n' by simp
    finally show ?thesis by simp
  qed
  have lower: "q * 1152921504606846976 \<le> X"
  proof (cases "r = 0 \<and> 0 < q")
    case True
    then have Pq: "P + q = q * 1152921504606846976" using P175 nqr by linarith
    then have "2 ^ 53 \<le> P" using True by simp
    then have "53 < bit_length P" by (rule bit_length_gt)
    then have bl: "bit_length P = s + 53" by (simp add: s_def)
    have "0 < P" using \<open>2 ^ 53 \<le> P\<close> by (cases "P = 0") auto
    then have "P < 2 ^ bit_length P" using bit_length_bounds by blast
    then have "P < B * 9007199254740992" using bl by (simp add: B_def power_add)
    then have small: "2 * q < B" using Pq by linarith
    have "P + q = (q * 2 ^ (60 - s)) * B" using Pq pow by (simp add: mult.assoc)
    with True small have "R = q * 2 ^ (60 - s)"
      unfolding R_def by (intro round_div_below) simp_all
    then have "X = q * (2 ^ (60 - s) * B)" by (simp add: X_def mult.assoc)
    then show ?thesis using pow by simp
  next
    case False
    then have "q * 1152921504606846976 \<le> P" using P175 nqr r n' by linarith
    then have "(q * 2 ^ (60 - s)) * B \<le> P" using pow by (simp add: mult.assoc)
    then have "q * 2 ^ (60 - s) \<le> P div B"
      using Bpos by (simp add: less_eq_div_iff_mult_less_eq)
    also have "\<dots> \<le> R" unfolding R_def using Bpos by (rule round_div_ge)
    finally have "(q * 2 ^ (60 - s)) * B \<le> X" unfolding X_def by (rule mult_le_mono1)
    then have "q * (2 ^ (60 - s) * B) \<le> X" by (simp add: mult.assoc)
    then show ?thesis using pow by simp
  qed
  have "X div 2 ^ 60 = q"
    using lower upper by (intro div_nat_eqI) simp_all
  then show ?thesis using nl by (simp add: q_def)
qed

subsection \<open>Loading and downsampling\<close>

lemma new_len_quotient:
  "n < 2 ^ 53 \<Longrightarrow> new_len n = (SAMPLING_RATE_TARGET * n) div SAMPLING_RATE_ORIG"
proof -
  assume "n < 2 ^ 53"
  then have "new_len n = n div 175" by (rule new_len_floor)
  also have "n div 175 = (4 * n) div (4 * 175)" by simp
  finally show ?thesis by (simp add: SAMPLING_RATE_TARGET_def SAMPLING_RATE_ORIG_def)
qed

lemma resample_columns_length:
  assumes "\<forall>xs ys. rs n xs = Inr ys \<longrightarrow> length ys = n"
    and "resample_columns rs n cols = Inr cs"
  shows "\<forall>c \<in> set cs. length c = n"
  using assms(2)
proof (induction cols arbitrary: cs)
  case Nil
  then show ?case by simp
next
  case (Cons c cols)
  then show ?case using assms(1) by (auto split: sum.splits)
qed

lemma resample_columns_total:
  assumes "\<forall>c \<in> set cols. \<not> isl (rs n c)"
  shows "\<exists>cs. resample_columns rs n cols = Inr cs"
  using assms
proof (induction cols)
  case Nil
  then show ?case by simp
next
  case (Cons c cols)
  then obtain c' cs where "rs n c = Inr c'" "resample_columns rs n cols = Inr cs"
    by (cases "rs n c") auto
  then show ?case by simp
qed

lemma np_concatenate_uniform:
  assumes "arrays \<noteq> []" "uniform n arrays"
  shows "np_concatenate arrays = Inr (concat arrays)"
proof -
  have all: "\<forall>c \<in> set (concat arrays). length c = n" using assms(2) by (auto simp: uniform_def)
  have "length c = length (hd (concat arrays))" if c: "c \<in> set (concat arrays)" for c
  proof -
    have "concat arrays \<noteq> []" using c by (cases "concat arrays") simp_all
    then have "hd (concat arrays) \<in> set (concat arrays)" by (rule hd_in_set)
    then show ?thesis using all c by metis
  qed
  then have "\<not> (\<exists>c \<in> set (concat arrays). length c \<noteq> length (hd (concat arrays)))"
    by blast
  then show ?thesis using assms(1) by (simp add: np_concatenate_def)
qed

lemma np_concatenate_Inr:
  "np_concatenate arrays = Inr joined \<Longrightarrow> joined = concat arrays \<and> arrays \<noteq> []"
  by (auto simp: np_concatenate_def split: if_splits)

lemma parts_loop_uniform:
  assumes "\<forall>xs ys. rs n xs = Inr ys \<longrightarrow> length ys = n"
    and "parts_loop rs n data device sig_key ps parts = Inr parts'"
    and "uniform n parts"
  shows "uniform n parts'"
  using assms(2,3)
proof (induction ps arbitrary: parts)
  case Nil
  then show ?case by simp
next
  case (Cons part rest)
  show ?case
  proof (cases "device = part \<or> device = ''both''")
    case False
    then show ?thesis using Cons by simp
  next
    case True
    show ?thesis
    proof (cases "getitem sig_key part")
      case (Inl e)
      then show ?thesis using Cons.prems True by simp
    next
      case (Inr ko)
      show ?thesis
      proof (cases ko)
        case None
        then show ?thesis using Cons Inr True by simp
      next
        case (Some key)
        from Cons.prems(1) True Inr Some obtain channels source s_down where
          "getitem (signal data) part = Inr channels" "getitem channels key = Inr source"
          and rc: "resample_columns rs n (case source of Arr1 xs \<Rightarrow> [xs] | Arr2 cols \<Rightarrow> cols) = Inr s_down"
          and rec: "parts_loop rs n data device sig_key rest (parts @ [s_down]) = Inr parts'"
          by (auto split: sum.splits)
        have "\<forall>c \<in> set s_down. length c = n"
          using resample_columns_length [OF assms(1) rc] .
        then have "uniform n (parts @ [s_down])" using Cons.prems(2) by (auto simp: uniform_def)
        from Cons.IH [OF rec this] show ?thesis .
      qed
    qed
  qed
qed

lemma signals_loop_uniform:
  assumes "\<forall>xs ys. rs n xs = Inr ys \<longrightarrow> length ys = n"
    and "signals_loop rs n data device signals signal_list = Inr signal_list'"
    and "uniform n signal_list"
  shows "uniform n signal_list'"
  using assms(2,3)
proof (induction signals arbitrary: signal_list)
  case Nil
  then show ?case by simp
next
  case (Cons sig rest)
  from Cons.prems(1) obtain sig_key parts where sk: "getitem SIGNAL_MAP sig = Inr sig_key"
    and pl: "parts_loop rs n data device sig_key [''chest'', ''wrist''] [] = Inr parts"
    by (auto split: sum.splits)
  have up: "uniform n parts"
    using parts_loop_uniform [OF assms(1) pl] by (simp add: uniform_def)
  show ?case
  proof (cases "parts = []")
    case True
    then show ?thesis using Cons sk pl by simp
  next
    case False
    with Cons.prems(1) sk pl obtain joined where j: "np_concatenate parts = Inr joined"
      and rec: "signals_loop rs n data device rest (signal_list @ [joined]) = Inr signal_list'"
      by (auto split: sum.splits)
    have "joined = concat parts" using np_concatenate_Inr [OF j] by simp
    then have "\<forall>c \<in> set joined. length c = n" using up by (auto simp: uniform_def)
    then have "uniform n (signal_list @ [joined])" using Cons.prems(2) by (auto simp: uniform_def)
    from Cons.IH [OF rec this] show ?thesis .
  qed
qed

lemma load_and_downsample_lengths:
  assumes "resample_contract rs"
    and "load_and_downsample rs data signals device = Inr (all_signals, labels)"
  shows "length labels = new_len (length (label data)) \<and>
         (\<forall>c \<in> set all_signals. length c = new_len (length (label data)))"
proof -
  let ?n = "new_len (length (label data))"
  have len: "\<forall>xs ys. rs ?n xs = Inr ys \<longrightarrow> length ys = ?n"
    using assms(1) by (simp add: resample_contract_def)
  from assms(2) obtain signal_list resampled where
    sl: "signals_loop rs ?n data device signals [] = Inr signal_list"
    and cc: "np_concatenate signal_list = Inr all_signals"
    and rl: "rs ?n (map real_of_int (label data)) = Inr resampled"
    and lb: "labels = map np_round resampled"
    by (auto simp: load_and_downsample_def Let_def split: sum.splits)
  have "uniform ?n signal_list"
    using signals_loop_uniform [OF len sl] by (simp add: uniform_def)
  moreover have "all_signals = concat signal_list" using np_concatenate_Inr [OF cc] by simp
  ultimately have "\<forall>c \<in> set all_signals. length c = ?n" by (auto simp: uniform_def)
  moreover have "length labels = ?n" using len rl lb by simp
  ultimately show ?thesis by simp
qed

lemma signal_map_parts:
  "map_of SIGNAL_MAP sig = Some sig_key \<Longrightarrow>
     map_of sig_key ''chest'' \<noteq> None \<and> map_of sig_key ''wrist'' \<noteq> None"
  by (auto simp: SIGNAL_MAP_def split: if_splits)

lemma parts_loop_skip:
  assumes "\<forall>part \<in> set ps. map_of sig_key part \<noteq> None"
    and "\<forall>part \<in> set ps. part_pairing device sig_key part = []"
  shows "parts_loop rs n data device sig_key ps parts = Inr parts"
  using assms
proof (induction ps)
  case Nil
  then show ?case by simp
next
  case (Cons part rest)
  then have rest: "parts_loop rs n data device sig_key rest parts = Inr parts" by simp
  show ?case
  proof (cases "device = part \<or> device = ''both''")
    case False
    then show ?thesis using rest by simp
  next
    case True
    from Cons.prems(1) obtain ko where ko: "map_of sig_key part = Some ko" by auto
    have "ko = None"
      using Cons.prems(2) True ko by (cases ko) (simp_all add: part_pairing_def)
    then show ?thesis using True ko rest by (simp add: getitem_def)
  qed
qed

lemma parts_loop_success:
  assumes "\<forall>part \<in> set ps. map_of sig_key part \<noteq> None"
    and "\<forall>part \<in> set ps. \<forall>p \<in> set (part_pairing device sig_key part).
           case source_columns data p of None \<Rightarrow> False | Some cols \<Rightarrow> [] \<notin> set cols"
    and "\<forall>xs. xs \<noteq> [] \<longrightarrow> \<not> isl (rs n xs)"
  shows "\<exists>parts'. parts_loop rs n data device sig_key ps parts = Inr parts' \<and>
           length parts' = length parts + length (concat (map (part_pairing device sig_key) ps))"
  using assms(1,2)
proof (induction ps arbitrary: parts)
  case Nil
  then show ?case by simp
next
  case (Cons part rest)
  have r1: "\<forall>part \<in> set rest. map_of sig_key part \<noteq> None" using Cons.prems(1) by simp
  have r2: "\<forall>part \<in> set rest. \<forall>p \<in> set (part_pairing device sig_key part).
           case source_columns data p of None \<Rightarrow> False | Some cols \<Rightarrow> [] \<notin> set cols"
    using Cons.prems(2) by simp
  note IH = Cons.IH [OF r1 r2]
  show ?case
  proof (cases "device = part \<or> device = ''both''")
    case False
    then have "part_pairing device sig_key part = []" by (simp add: part_pairing_def)
    then show ?thesis using False IH [of parts] by simp
  next
    case True
    from Cons.prems(1) obtain ko where ko: "map_of sig_key part = Some ko" by auto
    show ?thesis
    proof (cases ko)
      case None
      then have "part_pairing device sig_key part = []" using ko by (simp add: part_pairing_def)
      then show ?thesis using True ko None IH [of parts] by (simp add: getitem_def)
    next
      case (Some key)
      then have pp: "part_pairing device sig_key part = [(part, key)]"
        using True ko by (simp add: part_pairing_def)
      then have "case source_columns data (part, key) of None \<Rightarrow> False | Some cols \<Rightarrow> [] \<notin> set cols"
        using Cons.prems(2) by simp
      then obtain cols where sc: "source_columns data (part, key) = Some cols" and ne: "[] \<notin> set cols"
        by (auto split: option.splits)
      from sc obtain channels source where ch: "map_of (signal data) part = Some channels"
        and so: "map_of channels key = Some source"
        and cols: "cols = (case source of Arr1 xs \<Rightarrow> [xs] | Arr2 cs \<Rightarrow> cs)"
        by (auto simp: source_columns_def split: option.splits ndarray.splits)
      have "\<forall>c \<in> set cols. \<not> isl (rs n c)" using ne assms(3) by metis
      then obtain s_down where sd: "resample_columns rs n cols = Inr s_down"
        using resample_columns_total by blast
      from IH [of "parts @ [s_down]"] obtain parts' where
        "parts_loop rs n data device sig_key rest (parts @ [s_down]) = Inr parts'"
        "length parts' = length (parts @ [s_down]) + length (concat (map (part_pairing device sig_key) rest))"
        by blast
      then show ?thesis
        using True ko Some ch so cols sd pp by (simp add: getitem_def)
    qed
  qed
qed

lemma pairings_known:
  "map_of SIGNAL_MAP sig = Some sig_key \<Longrightarrow>
     pairings device sig = concat (map (part_pairing device sig_key) [''chest'', ''wrist''])"
  by (simp add: pairings_def)

lemma parts_unavailable:
  assumes "unavailable device sig"
  shows "\<exists>sig_key. getitem SIGNAL_MAP sig = Inr sig_key \<and>
           parts_loop rs n data device sig_key [''chest'', ''wrist''] [] = Inr []"
proof -
  from assms obtain sig_key where sk: "map_of SIGNAL_MAP sig = Some sig_key"
    by (auto simp: unavailable_def)
  have "pairings device sig = []" using assms by (simp add: unavailable_def)
  then have e: "\<forall>part \<in> set [''chest'', ''wrist'']. part_pairing device sig_key part = []"
    using pairings_known [OF sk] by simp
  have k: "\<forall>part \<in> set [''chest'', ''wrist'']. map_of sig_key part \<noteq> None"
    using signal_map_parts [OF sk] by simp
  from parts_loop_skip [OF k e] sk show ?thesis by (simp add: getitem_def)
qed

lemma signals_loop_filter:
  "signals_loop rs n data device signals signal_list =
     signals_loop rs n data device (filter (\<lambda>s. \<not> unavailable device s) signals) signal_list"
proof (induction signals arbitrary: signal_list)
  case Nil
  then show ?case by simp
next
  case (Cons sig rest)
  show ?case
  proof (cases "unavailable device sig")
    case True
    from parts_unavailable [OF True] obtain sig_key where
      "getitem SIGNAL_MAP sig = Inr sig_key"
      "parts_loop rs n data device sig_key [''chest'', ''wrist''] [] = Inr []"
      by blast
    then show ?thesis using True Cons.IH by simp
  next
    case False
    then show ?thesis by (simp add: Cons.IH del: parts_loop.simps cong: sum.case_cong if_cong)
  qed
qed

lemma signals_loop_none:
  assumes "\<forall>s \<in> set signals. pairings device s = []"
  shows "signals_loop rs n data device signals signal_list = Inr signal_list \<or>
         isl (signals_loop rs n data device signals signal_list)"
  using assms
proof (induction signals)
  case Nil
  then show ?case by simp
next
  case (Cons sig rest)
  show ?case
  proof (cases "map_of SIGNAL_MAP sig")
    case None
    then show ?thesis by (simp add: getitem_def)
  next
    case (Some sig_key)
    then have "unavailable device sig" using Cons.prems by (simp add: unavailable_def)
    from parts_unavailable [OF this] obtain sk where
      "getitem SIGNAL_MAP sig = Inr sk"
      "parts_loop rs n data device sk [''chest'', ''wrist''] [] = Inr []"
      by blast
    then show ?thesis using Cons by simp
  qed
qed

lemma sources_present_Cons:
  "sources_present data (sig # rest) device \<Longrightarrow> sources_present data rest device"
  by (simp add: sources_present_def)

lemma signals_loop_success:
  assumes "sources_present data signals device"
    and tot: "\<forall>xs. xs \<noteq> [] \<longrightarrow> \<not> isl (rs n xs)"
    and len: "\<forall>xs ys. rs n xs = Inr ys \<longrightarrow> length ys = n"
  shows "\<exists>sl. signals_loop rs n data device signals signal_list = Inr sl \<and>
           (sl = [] \<longleftrightarrow> signal_list = [] \<and> (\<forall>s \<in> set signals. pairings device s = []))"
  using assms(1)
proof (induction signals arbitrary: signal_list)
  case Nil
  then show ?case by simp
next
  case (Cons sig rest)
  note IH = Cons.IH [OF sources_present_Cons [OF Cons.prems]]
  from Cons.prems obtain sig_key where sk: "map_of SIGNAL_MAP sig = Some sig_key"
    by (auto simp: sources_present_def)
  have gi: "getitem SIGNAL_MAP sig = Inr sig_key" using sk by (simp add: getitem_def)
  have k: "\<forall>part \<in> set [''chest'', ''wrist'']. map_of sig_key part \<noteq> None"
    using signal_map_parts [OF sk] by simp
  have pk: "pairings device sig = concat (map (part_pairing device sig_key) [''chest'', ''wrist''])"
    using sk by (rule pairings_known)
  have src: "\<forall>part \<in> set [''chest'', ''wrist'']. \<forall>p \<in> set (part_pairing device sig_key part).
           case source_columns data p of None \<Rightarrow> False | Some cols \<Rightarrow> [] \<notin> set cols"
  proof (intro ballI)
    fix part p
    assume "part \<in> set [''chest'', ''wrist'']" "p \<in> set (part_pairing device sig_key part)"
    then have "p \<in> set (pairings device sig)" unfolding pk by auto
    then show "case source_columns data p of None \<Rightarrow> False | Some cols \<Rightarrow> [] \<notin> set cols"
      using Cons.prems by (simp add: sources_present_def)
  qed
  from parts_loop_success [where rs = rs and n = n and parts = "[]", OF k src tot] obtain parts where
    pl: "parts_loop rs n data device sig_key [''chest'', ''wrist''] [] = Inr parts"
    and lp: "length parts = length (pairings device sig)"
    unfolding pk by auto
  have un: "uniform n parts"
    using parts_loop_uniform [OF len pl] by (simp add: uniform_def)
  show ?case
  proof (cases "parts = []")
    case True
    then have "pairings device sig = []" using lp by simp
    moreover have "signals_loop rs n data device (sig # rest) signal_list =
                   signals_loop rs n data device rest signal_list"
      using gi pl True by (simp del: parts_loop.simps)
    ultimately show ?thesis using IH [of signal_list] by simp
  next
    case False
    then have np: "pairings device sig \<noteq> []" using lp by auto
    have "np_concatenate parts = Inr (concat parts)"
      using False un by (rule np_concatenate_uniform)
    then have "signals_loop rs n data device (sig # rest) signal_list =
               signals_loop rs n data device rest (signal_list @ [concat parts])"
      using gi pl False by (simp del: parts_loop.simps)
    then show ?thesis using IH [of "signal_list @ [concat parts]"] np by auto
  qed
qed

lemma new_len_0: "new_len 0 = 0"
  using new_len_floor [of 0] by simp

lemma load_and_downsample_success:
  assumes c: "resample_contract rs"
    and sp: "sources_present data signals device"
    and pos: "0 < new_len (length (label data))"
    and ex: "\<exists>s \<in> set signals. pairings device s \<noteq> []"
  shows "\<not> isl (load_and_downsample rs data signals device)"
proof -
  let ?n = "new_len (length (label data))"
  have tot: "\<forall>xs. xs \<noteq> [] \<longrightarrow> \<not> isl (rs ?n xs)"
    using c pos by (simp add: resample_contract_def)
  have len: "\<forall>xs ys. rs ?n xs = Inr ys \<longrightarrow> length ys = ?n"
    using c by (simp add: resample_contract_def)
  from signals_loop_success [where rs = rs and n = "?n" and signal_list = "[]", OF sp tot len] ex obtain sl where
    sl: "signals_loop rs ?n data device signals [] = Inr sl" and ne: "sl \<noteq> []"
    by auto
  have "uniform ?n sl" using signals_loop_uniform [OF len sl] by (simp add: uniform_def)
  with ne have cc: "np_concatenate sl = Inr (concat sl)" by (rule np_concatenate_uniform)
  have "label data \<noteq> []" using pos new_len_0 by (cases "label data") auto
  then have "\<not> isl (rs ?n (map real_of_int (label data)))" using tot by simp
  then obtain ys where "rs ?n (map real_of_int (label data)) = Inr ys"
    by (cases "rs ?n (map real_of_int (label data))") auto
  then show ?thesis using sl cc by (simp add: load_and_downsample_def Let_def)
qed

lemma load_and_downsample_none:
  assumes "\<forall>s \<in> set signals. pairings device s = []"
  shows "isl (load_and_downsample rs data signals device)"
proof -
  let ?n = "new_len (length (label data))"
  from signals_loop_none [OF assms, of rs ?n data "[]"]
  show ?thesis
  proof
    assume "signals_loop rs ?n data device signals [] = Inr []"
    then show ?thesis by (simp add: load_and_downsample_def Let_def np_concatenate_def)
  next
    assume "isl (signals_loop rs ?n data device signals [])"
    then obtain e where "signals_loop rs ?n data device signals [] = Inl e"
      by (cases "signals_loop rs ?n data device signals []") auto
    then show ?thesis by (simp add: load_and_downsample_def Let_def)
  qed
qed

lemma load_and_downsample_filter:
  "load_and_downsample rs data signals device =
     load_and_downsample rs data (filter (\<lambda>s. \<not> unavailable device s) signals) device"
  unfolding load_and_downsample_def
  by (subst signals_loop_filter) (rule refl)

lemmas loader_eval =
  load_and_downsample_def getitem_def SIGNAL_MAP_def np_concatenate_def np_round_def
  new_len_floor pairings_def part_pairing_def unavailable_def source_columns_def
  sources_present_def

lemma zeros_contract: "resample_contract (\<lambda>n xs. Inr (replicate n 0))"
  by (simp add: resample_contract_def)

text \<open>
  C1, as stated: the row count is \<open>round (L * 4 / 700)\<close>. For a label series of length 300
  the quotient is \<open>12 / 7\<close>, which rounds to 2, but \<^verbatim>\<open>int\<close> cuts it off and every
  resampled series has one row (with a resampler that returns zeros, as with any resampler
  that returns the number of samples it is asked for).
\<close>

theorem row_count_truncated_not_rounded:
  "load_and_downsample (\<lambda>n xs. Inr (replicate n 0))
     \<lparr>label = replicate 300 1, signal = [(''chest'', [(''EDA'', Arr1 (replicate 300 0))])]\<rparr>
     [''EDA''] ''chest'' = Inr ([[0]], [0]) \<and>
   round (real 300 * real SAMPLING_RATE_TARGET / real SAMPLING_RATE_ORIG) = 2"
proof -
  have "round (real 300 * real SAMPLING_RATE_TARGET / real SAMPLING_RATE_ORIG) = 2"
    by (simp add: SAMPLING_RATE_TARGET_def SAMPLING_RATE_ORIG_def round_def)
  moreover have "load_and_downsample (\<lambda>n xs. Inr (replicate n 0))
     \<lparr>label = replicate 300 1, signal = [(''chest'', [(''EDA'', Arr1 (replicate 300 0))])]\<rparr>
     [''EDA''] ''chest'' = Inr ([[0]], [0])"
    by (simp add: loader_eval)
  ultimately show ?thesis by simp
qed

text \<open>
  C1, amended. For a label series of length \<open>L\<close> below \<open>2 ^ 53\<close>, when
  \<^verbatim>\<open>load_and_downsample\<close> returns, the resampled label series and every column of the
  signal matrix, hence the resampled output of every selected channel, have the same number
  of rows, \<open>(4 * L) div 700\<close>: the quotient cut off, not rounded.
\<close>

theorem load_and_downsample_row_count:
  assumes "resample_contract rs"
    and "load_and_downsample rs data signals device = Inr (all_signals, labels)"
    and "length (label data) < 2 ^ 53"
  shows "length labels = (SAMPLING_RATE_TARGET * length (label data)) div SAMPLING_RATE_ORIG \<and>
         list_all (\<lambda>c. length c = (SAMPLING_RATE_TARGET * length (label data)) div SAMPLING_RATE_ORIG)
           all_signals"
  using load_and_downsample_lengths [OF assms(1,2)] new_len_quotient [OF assms(3)]
  by (simp add: list_all_iff)

theorem load_and_downsample_row_count_witness:
  "load_and_downsample (\<lambda>n xs. Inr (replicate n 0))
     \<lparr>label = replicate 700 1,
      signal = [(''chest'', [(''EDA'', Arr1 (replicate 700 0)), (''ACC'', Arr2 [replicate 700 1, replicate 700 2])])]\<rparr>
     [''EDA'', ''ACC''] ''chest'' =
     Inr ([replicate 4 0, replicate 4 0, replicate 4 0], replicate 4 0) \<and>
   length (replicate 4 (0::int)) = (SAMPLING_RATE_TARGET * 700) div SAMPLING_RATE_ORIG \<and>
   list_all (\<lambda>c. length c = (SAMPLING_RATE_TARGET * 700) div SAMPLING_RATE_ORIG)
     [replicate 4 0, replicate 4 0, replicate 4 (0::real)]"
proof -
  let ?d = "\<lparr>label = replicate 700 1,
      signal = [(''chest'', [(''EDA'', Arr1 (replicate 700 0)), (''ACC'', Arr2 [replicate 700 1, replicate 700 2])])]\<rparr>"
  have h: "load_and_downsample (\<lambda>n xs. Inr (replicate n 0)) ?d [''EDA'', ''ACC''] ''chest'' =
        Inr ([replicate 4 0, replicate 4 0, replicate 4 0], replicate 4 0)"
    by (simp add: loader_eval)
  have l: "length (label ?d) < 2 ^ 53" by simp
  from load_and_downsample_row_count [OF zeros_contract h l] h show ?thesis by simp
qed

text \<open>
  C8. A signal of the table that resolves to no source under the device selection
  contributes nothing and raises nothing: the call is the call without it. When no
  requested signal resolves to a source, the call raises. When at least one does, the
  recording holds the arrays of the resolved sources, the label series gives a positive row
  count and the resampler keeps its contract, the call returns, so both concatenations
  succeed.
\<close>

theorem load_and_downsample_pairings:
  "load_and_downsample rs data signals device =
     load_and_downsample rs data (filter (\<lambda>s. \<not> unavailable device s) signals) device \<and>
   ((\<forall>s \<in> set signals. pairings device s = []) \<longrightarrow>
      isl (load_and_downsample rs data signals device)) \<and>
   (resample_contract rs \<and> sources_present data signals device \<and>
    0 < new_len (length (label data)) \<and> (\<exists>s \<in> set signals. pairings device s \<noteq> []) \<longrightarrow>
      \<not> isl (load_and_downsample rs data signals device))"
  using load_and_downsample_filter load_and_downsample_none load_and_downsample_success
  by blast

theorem load_and_downsample_pairings_witness:
  "load_and_downsample (\<lambda>n xs. Inr (replicate n 0))
     \<lparr>label = replicate 175 1, signal = [(''wrist'', [(''BVP'', Arr1 [1, 2, 3])])]\<rparr>
     [''RESP'', ''BVP''] ''wrist'' =
   load_and_downsample (\<lambda>n xs. Inr (replicate n 0))
     \<lparr>label = replicate 175 1, signal = [(''wrist'', [(''BVP'', Arr1 [1, 2, 3])])]\<rparr>
     [''BVP''] ''wrist'' \<and>
   isl (load_and_downsample (\<lambda>n xs. Inr (replicate n 0))
     \<lparr>label = replicate 175 1, signal = [(''wrist'', [(''BVP'', Arr1 [1, 2, 3])])]\<rparr>
     [''RESP''] ''wrist'') \<and>
   \<not> isl (load_and_downsample (\<lambda>n xs. Inr (replicate n 0))
     \<lparr>label = replicate 175 1, signal = [(''wrist'', [(''BVP'', Arr1 [1, 2, 3])])]\<rparr>
     [''RESP'', ''BVP''] ''wrist'')"
proof -
  let ?rs = "\<lambda>(n::nat) (xs::real list). (Inr (replicate n 0) :: py_error + real list)"
  let ?d = "\<lparr>label = replicate 175 1, signal = [(''wrist'', [(''BVP'', Arr1 [1, 2, 3])])]\<rparr>"
  have f: "filter (\<lambda>s. \<not> unavailable ''wrist'' s) [''RESP'', ''BVP''] = [''BVP'']"
    by (simp add: unavailable_def pairings_def part_pairing_def SIGNAL_MAP_def)
  have none: "\<forall>s \<in> set [''RESP'']. pairings ''wrist'' s = []"
    by (simp add: pairings_def part_pairing_def SIGNAL_MAP_def)
  have sp: "sources_present ?d [''RESP'', ''BVP''] ''wrist''"
    by (simp add: sources_present_def pairings_def part_pairing_def SIGNAL_MAP_def source_columns_def)
  have pos: "0 < new_len (length (label ?d))" by (simp add: new_len_floor)
  have ex: "\<exists>s \<in> set [''RESP'', ''BVP'']. pairings ''wrist'' s \<noteq> []"
    by (simp add: pairings_def part_pairing_def SIGNAL_MAP_def)
  have a: "load_and_downsample ?rs ?d [''RESP'', ''BVP''] ''wrist'' =
           load_and_downsample ?rs ?d [''BVP''] ''wrist''"
    using load_and_downsample_pairings [of ?rs ?d "[''RESP'', ''BVP'']" "''wrist''"] f by simp
  have b: "isl (load_and_downsample ?rs ?d [''RESP''] ''wrist'')"
    using load_and_downsample_pairings [of ?rs ?d "[''RESP'']" "''wrist''"] none by blast
  have c: "\<not> isl (load_and_downsample ?rs ?d [''RESP'', ''BVP''] ''wrist'')"
    using load_and_downsample_pairings [of ?rs ?d "[''RESP'', ''BVP'']" "''wrist''"]
      zeros_contract sp pos ex by blast
  from a b c show ?thesis by blast
qed

subsection \<open>The audio batch\<close>

lemma process_audio_entry:
  assumes "audio_lib_contract lib" "process_audio lib (path, g) = Inr r"
  shows "entry_for path r \<and> (is_failed r \<longleftrightarrow> try_block_raises lib path)"
  using assms
  by (auto simp: process_audio_def audio_lib_contract_def entry_for_def is_failed_def
      try_block_raises_def Let_def split: option.splits sum.splits)

lemma process_audio_returns:
  "set_device lib g = None \<Longrightarrow> \<not> isl (process_audio lib (path, g))"
  by (simp add: process_audio_def Let_def)

lemma pool_map_Inr:
  "pool_map f xs = Inr ys \<Longrightarrow> length ys = length xs \<and> (\<forall>i<length xs. f (xs ! i) = Inr (ys ! i))"
proof (induction xs arbitrary: ys)
  case Nil
  then show ?case by simp
next
  case (Cons x xs)
  then obtain y ys' where y: "f x = Inr y" and r: "pool_map f xs = Inr ys'" and ys: "ys = y # ys'"
    by (auto split: sum.splits)
  from Cons.IH [OF r] y ys show ?case by (auto simp: nth_Cons split: nat.splits)
qed

lemma pool_map_total:
  "\<forall>x \<in> set xs. \<not> isl (f x) \<Longrightarrow> \<not> isl (pool_map f xs)"
proof (induction xs)
  case Nil
  then show ?case by simp
next
  case (Cons x xs)
  then obtain y ys where "f x = Inr y" "pool_map f xs = Inr ys"
    by (cases "f x"; cases "pool_map f xs") auto
  then show ?case by simp
qed

lemma file_gpu_pairs_nth:
  "i < length audio_files \<Longrightarrow> file_gpu_pairs audio_files ! i = (audio_files ! i, assign_gpu i)"
  by (simp add: file_gpu_pairs_def nth_enumerate_eq)

lemma length_file_gpu_pairs: "length (file_gpu_pairs audio_files) = length audio_files"
  by (simp add: file_gpu_pairs_def)

lemma assign_gpu_range: "assign_gpu i = 0 \<or> assign_gpu i = 1"
  by (simp add: assign_gpu_def)

lemmas audio_eval =
  audio_results_def file_gpu_pairs_def assign_gpu_def process_audio_def basename_def
  enumerate_eq_zip

lemma audio_results_returned:
  assumes "audio_lib_contract lib"
  shows "(\<forall>results. audio_results lib audio_files = Inr results \<longrightarrow>
            length results = length audio_files \<and>
            (\<forall>i<length audio_files.
               entry_for (audio_files ! i) (results ! i) \<and>
               (is_failed (results ! i) \<longleftrightarrow> try_block_raises lib (audio_files ! i)))) \<and>
         (set_device lib 0 = None \<and> set_device lib 1 = None \<longrightarrow>
            \<not> isl (audio_results lib audio_files))"
proof (intro conjI allI impI)
  fix results assume r: "audio_results lib audio_files = Inr results"
  then have pm: "pool_map (process_audio lib) (file_gpu_pairs audio_files) = Inr results"
    by (simp add: audio_results_def)
  note p = pool_map_Inr [OF pm]
  show "length results = length audio_files" using p by (simp add: length_file_gpu_pairs)
  fix i assume i: "i < length audio_files"
  then have "process_audio lib (audio_files ! i, assign_gpu i) = Inr (results ! i)"
    using p by (simp add: length_file_gpu_pairs file_gpu_pairs_nth)
  from process_audio_entry [OF assms this]
  show "entry_for (audio_files ! i) (results ! i)"
    and "is_failed (results ! i) \<longleftrightarrow> try_block_raises lib (audio_files ! i)"
    by simp_all
next
  assume d: "set_device lib 0 = None \<and> set_device lib 1 = None"
  have "\<forall>x \<in> set (file_gpu_pairs audio_files). \<not> isl (process_audio lib x)"
  proof
    fix x assume "x \<in> set (file_gpu_pairs audio_files)"
    then obtain i where "i < length audio_files" "x = (audio_files ! i, assign_gpu i)"
      by (metis in_set_conv_nth length_file_gpu_pairs file_gpu_pairs_nth)
    moreover have "set_device lib (assign_gpu i) = None" using d assign_gpu_range [of i] by auto
    ultimately show "\<not> isl (process_audio lib x)" using process_audio_returns by metis
  qed
  then show "\<not> isl (audio_results lib audio_files)"
    unfolding audio_results_def by (rule pool_map_total)
qed

text \<open>
  C9, as stated: a failure for one file never aborts the batch, and there are as many
  entries as files. On a machine where device 1 cannot be selected,
  \<^verbatim>\<open>torch.cuda.set_device\<close> raises for the second file before the \<^verbatim>\<open>try\<close> block is
  entered; the exception leaves \<^verbatim>\<open>process_audio\<close> and \<^verbatim>\<open>pool.map\<close> raises: there
  is no result list.
\<close>

theorem device_failure_aborts_batch:
  "audio_results
     \<lparr>set_device = (\<lambda>g. if g = 1 then Some ''invalid device ordinal'' else None),
      load_snippet = (\<lambda>path. Inr ()),
      get_audio_embedding = (\<lambda>y. Inr (replicate 512 [1])),
      column_mean = (\<lambda>c. 1),
      top_tags = (\<lambda>path. Inr [(''rock'', 1)])\<rparr>
     [''downloads/a.mp3'', ''downloads/b.mp3''] = Inl ''invalid device ordinal''"
  by (simp add: audio_eval)

lemma device_failure_raises:
  assumes "i < length audio_files" "set_device lib (assign_gpu i) \<noteq> None"
  shows "isl (audio_results lib audio_files)"
proof (cases "audio_results lib audio_files")
  case (Inl e)
  then show ?thesis by simp
next
  case (Inr results)
  then have "pool_map (process_audio lib) (file_gpu_pairs audio_files) = Inr results"
    by (simp add: audio_results_def)
  from pool_map_Inr [OF this] assms(1)
  have "process_audio lib (audio_files ! i, assign_gpu i) = Inr (results ! i)"
    by (simp add: length_file_gpu_pairs file_gpu_pairs_nth)
  moreover from assms(2) obtain e where "set_device lib (assign_gpu i) = Some e" by auto
  ultimately show ?thesis by (simp add: process_audio_def)
qed

text \<open>
  C9, amended. When \<^verbatim>\<open>pool.map\<close> returns, the result list has one entry for each file,
  in the order of the files; each entry is a record of features with the base name of the
  file, an embedding of 512 numbers and at least one tag (given that the embedding has 512
  columns and the tagger returns a tag), or a record of an error with the base name of the
  file, and it is a record of an error exactly when a call inside the \<^verbatim>\<open>try\<close> block
  raises. When both devices can be selected, \<^verbatim>\<open>pool.map\<close> returns; when the device
  assigned to one of the files cannot be selected, \<^verbatim>\<open>pool.map\<close> raises and there is no
  result list.
\<close>

theorem audio_results_entries:
  assumes "audio_lib_contract lib"
  shows "(\<forall>results. audio_results lib audio_files = Inr results \<longrightarrow>
            length results = length audio_files \<and>
            (\<forall>i<length audio_files.
               entry_for (audio_files ! i) (results ! i) \<and>
               (is_failed (results ! i) \<longleftrightarrow> try_block_raises lib (audio_files ! i)))) \<and>
         (set_device lib 0 = None \<and> set_device lib 1 = None \<longrightarrow>
            \<not> isl (audio_results lib audio_files)) \<and>
         ((\<exists>i<length audio_files. set_device lib (assign_gpu i) \<noteq> None) \<longrightarrow>
            isl (audio_results lib audio_files))"
  using audio_results_returned [OF assms, of audio_files] device_failure_raises [of _ audio_files lib]
  by blast

theorem audio_results_entries_witness:
  "audio_results
     \<lparr>set_device = (\<lambda>g. None),
      load_snippet = (\<lambda>path. if path = ''downloads/b.mp3'' then Inl ''corrupt'' else Inr ()),
      get_audio_embedding = (\<lambda>y. Inr (replicate 512 [1, 3])),
      column_mean = (\<lambda>c. sum_list c / real (length c)),
      top_tags = (\<lambda>path. Inr [(''rock'', 1 / 2)])\<rparr>
     [''downloads/a.mp3'', ''downloads/b.mp3''] =
     Inr [Features ''a.mp3'' (replicate 512 2) [(''rock'', 1 / 2)], Failed ''b.mp3'' ''corrupt''] \<and>
   length [Features ''a.mp3'' (replicate 512 2) [(''rock'', 1 / 2)], Failed ''b.mp3'' ''corrupt''] =
     length [''downloads/a.mp3'', ''downloads/b.mp3''] \<and>
   entry_for ''downloads/a.mp3'' (Features ''a.mp3'' (replicate 512 2) [(''rock'', 1 / 2)]) \<and>
   entry_for ''downloads/b.mp3'' (Failed ''b.mp3'' ''corrupt'') \<and>
   \<not> is_failed (Features ''a.mp3'' (replicate 512 2) [(''rock'', 1 / 2)]) \<and>
   is_failed (Failed ''b.mp3'' ''corrupt'')"
proof -
  let ?lib = "\<lparr>set_device = (\<lambda>g::nat. None :: string option),
      load_snippet = (\<lambda>path. if path = ''downloads/b.mp3'' then Inl ''corrupt'' else Inr ()),
      get_audio_embedding = (\<lambda>y. Inr (replicate 512 [1, 3])),
      column_mean = (\<lambda>c. sum_list c / real (length c)),
      top_tags = (\<lambda>path. Inr [(''rock'', 1 / 2)])\<rparr>"
  let ?files = "[''downloads/a.mp3'', ''downloads/b.mp3'']"
  let ?R = "[Features ''a.mp3'' (replicate 512 2) [(''rock'', 1 / 2)], Failed ''b.mp3'' ''corrupt'']"
  have c: "audio_lib_contract ?lib"
    by (auto simp: audio_lib_contract_def EMBED_SIZE_def)
  have h: "audio_results ?lib ?files = Inr ?R"
    by (simp add: audio_eval)
  from audio_results_entries [OF c, of ?files] h
  have e: "length ?R = length ?files \<and>
        (\<forall>i<length ?files. entry_for (?files ! i) (?R ! i) \<and>
               (is_failed (?R ! i) \<longleftrightarrow> try_block_raises ?lib (?files ! i)))"
    by blast
  then have all: "\<forall>i<length ?files. entry_for (?files ! i) (?R ! i)" by blast
  have e0: "entry_for (?files ! 0) (?R ! 0)" using all [rule_format, of 0] by simp
  have e1: "entry_for (?files ! 1) (?R ! 1)" using all [rule_format, of 1] by simp
  have f: "\<not> is_failed (Features ''a.mp3'' (replicate 512 2) [(''rock'', 1 / 2)])"
    "is_failed (Failed ''b.mp3'' ''corrupt'')"
    by (simp_all add: is_failed_def)
  have l: "length ?R = length ?files" by simp
  from e0 e1 have e0': "entry_for ''downloads/a.mp3'' (Features ''a.mp3'' (replicate 512 2) [(''rock'', 1 / 2)])"
    and e1': "entry_for ''downloads/b.mp3'' (Failed ''b.mp3'' ''corrupt'')"
    by simp_all
  from h l e0' e1' f show ?thesis by blast
qed

end
